theory Spec2Isabelle
  imports Complex_Main "HOL-Library.Multiset" "HOL-Library.List_Lexorder" "HOL-Library.Option_ord"
begin

section \<open>JavaScript values used by the pages\<close>

text \<open>
  A JavaScript string is a sequence of UTF-16 code units; \<open>s < t\<close> on two strings compares
  them code unit by code unit, a proper prefix being smaller. That is the lexicographic
  order of lists of numbers. \<open>lit\<close> turns an ASCII literal of the source into code units.
\<close>

type_synonym js_string = "nat list"

definition lit :: "string \<Rightarrow> js_string" where
  "lit s = map of_char s"

text \<open>
  Numbers. A number field of a row is a JSON number literal, read by \<open>res.json()\<close> as a
  finite double (a literal beyond the range of doubles is not considered); the model
  keeps its exact value as a real. Besides these the comparator writes \<open>-Infinity\<close>, and
  the coercion of a string to a number can give any number, \<open>NaN\<close> and both infinities
  included.
\<close>

datatype jsnum = NaN | NegInf | Fin real | PosInf

datatype jsval = VUndefined | VNull | VNumber jsnum | VString js_string

text \<open>\<open>x < y\<close> on two numbers: false as soon as one of them is \<open>NaN\<close>.\<close>

fun num_lt :: "jsnum \<Rightarrow> jsnum \<Rightarrow> bool" where
  "num_lt NaN y = False"
| "num_lt x NaN = False"
| "num_lt x NegInf = False"
| "num_lt NegInf y = True"
| "num_lt PosInf y = False"
| "num_lt (Fin x) PosInf = True"
| "num_lt (Fin x) (Fin y) = (x < y)"

text \<open>
  \<open>ToNumber\<close>: \<open>undefined\<close> is \<open>NaN\<close>, \<open>null\<close> is \<open>+0\<close>, a number is itself. On a string it
  parses a numeric literal and rounds it to a double; that function of the language is
  taken as the parameter \<open>tn\<close>, and every theorem below holds for each \<open>tn\<close>.
\<close>

fun to_number :: "(js_string \<Rightarrow> jsnum) \<Rightarrow> jsval \<Rightarrow> jsnum" where
  "to_number tn VUndefined = NaN"
| "to_number tn VNull = Fin 0"
| "to_number tn (VNumber n) = n"
| "to_number tn (VString s) = tn s"

text \<open>
  The relational operator \<open>av < bv\<close>: two strings are compared as strings, everything
  else as numbers. \<open>av > bv\<close> is \<open>bv < av\<close>.
\<close>

fun js_lt :: "(js_string \<Rightarrow> jsnum) \<Rightarrow> jsval \<Rightarrow> jsval \<Rightarrow> bool" where
  "js_lt tn (VString s) (VString t) = (s < t)"
| "js_lt tn x y = num_lt (to_number tn x) (to_number tn y)"

text \<open>The operator \<open>a ?? b\<close>: \<open>b\<close> when \<open>a\<close> is \<open>undefined\<close> or \<open>null\<close>, else \<open>a\<close>.\<close>

fun coalesce :: "jsval \<Rightarrow> jsval \<Rightarrow> jsval" where
  "coalesce VUndefined b = b"
| "coalesce VNull b = b"
| "coalesce a b = a"

text \<open>A field declared \<open>number | null | undefined\<close> (an optional, nullable number).\<close>

datatype optnum = Undefined | Null | Number real

fun optnum_val :: "optnum \<Rightarrow> jsval" where
  "optnum_val Undefined = VUndefined"
| "optnum_val Null = VNull"
| "optnum_val (Number x) = VNumber (Fin x)"

text \<open>\<open>x ?? d\<close> where \<open>x\<close> is an optional number and \<open>d\<close> a number.\<close>

fun nullish_or :: "optnum \<Rightarrow> real \<Rightarrow> real" where
  "nullish_or Undefined d = d"
| "nullish_or Null d = d"
| "nullish_or (Number x) d = x"

datatype sort_dir = Asc | Desc


section \<open>Array.prototype.sort\<close>

text \<open>
  \<open>copy.sort(f)\<close> calls \<open>f(a, b)\<close> on pairs of elements; a negative result puts \<open>a\<close>
  before \<open>b\<close>, a positive one after it, and the sort is stable (ECMAScript 2019):
  elements for which \<open>f\<close> gives zero keep their order. For a comparator that is
  consistent (a total preorder on the elements) this fixes the result, and \<open>array_sort\<close>
  computes it by stable insertion, from the right end of the array; for any other
  comparator the standard leaves the order to the engine, and \<open>array_sort\<close> is one such
  order. The rows are objects, never \<open>undefined\<close>, so every element goes through \<open>f\<close>.
  The comparator's result is modelled by a real of the same sign: the comparators of the
  pages return \<open>-1\<close>, \<open>1\<close>, \<open>0\<close> or the difference of two finite doubles, whose sign is the
  sign of the exact difference.
\<close>

fun sort_insert :: "('a \<Rightarrow> 'a \<Rightarrow> real) \<Rightarrow> 'a \<Rightarrow> 'a list \<Rightarrow> 'a list" where
  "sort_insert f x [] = [x]"
| "sort_insert f x (y # ys) = (if f x y \<le> 0 then x # y # ys else y # sort_insert f x ys)"

fun array_sort :: "('a \<Rightarrow> 'a \<Rightarrow> real) \<Rightarrow> 'a list \<Rightarrow> 'a list" where
  "array_sort f [] = []"
| "array_sort f (x # xs) = sort_insert f x (array_sort f xs)"

text \<open>
  \<open>precedes f a b\<close>: the comparator lets \<open>a\<close> stand before \<open>b\<close>; two elements are equivalent
  when each may stand before the other. A comparator is consistent on a set of elements
  when \<open>precedes\<close> is total and transitive there.
\<close>

definition precedes :: "('a \<Rightarrow> 'a \<Rightarrow> real) \<Rightarrow> 'a \<Rightarrow> 'a \<Rightarrow> bool" where
  "precedes f a b = (f a b \<le> 0)"

definition equivalent :: "('a \<Rightarrow> 'a \<Rightarrow> real) \<Rightarrow> 'a \<Rightarrow> 'a \<Rightarrow> bool" where
  "equivalent f a b = (precedes f a b \<and> precedes f b a)"

definition consistent_on :: "('a \<Rightarrow> 'a \<Rightarrow> real) \<Rightarrow> 'a set \<Rightarrow> bool" where
  "consistent_on f S =
     ((\<forall>x\<in>S. \<forall>y\<in>S. precedes f x y \<or> precedes f y x) \<and>
      (\<forall>x\<in>S. \<forall>y\<in>S. \<forall>z\<in>S. precedes f x y \<longrightarrow> precedes f y z \<longrightarrow> precedes f x z))"


section \<open>The rows\<close>

text \<open>
  The type \<open>HistoryRow\<close> of app/history/page.tsx: every field is required, a number or a
  string. The field \<open>id\<close> is written \<open>id_row\<close> here.
\<close>

record HistoryRow =
  id_row :: real
  season :: real
  week :: real
  game_id :: js_string
  created_at :: js_string
  home_team :: js_string
  away_team :: js_string
  pred_margin :: real
  home_win_prob :: real
  pick :: js_string
  pick_prob :: real

text \<open>\<open>keyof HistoryRow\<close>.\<close>

datatype HistoryRow_key =
    H_id | H_season | H_week | H_game_id | H_created_at | H_home_team | H_away_team
  | H_pred_margin | H_home_win_prob | H_pick | H_pick_prob

text \<open>
  The type \<open>GameView\<close> of app/page.tsx. \<open>game_id\<close> is \<open>string | number\<close>. \<open>pick_prob\<close> is
  declared \<open>number\<close>, but the comparator reads it as \<open>a.pick_prob ?? 0\<close>, so the model
  lets it be absent or null as well.
\<close>

datatype game_id = is_IdStr: IdStr js_string | is_IdNum: IdNum real

record GameView =
  game_id :: game_id
  week :: real
  away_team :: js_string
  home_team :: js_string
  home_off_epa :: optnum
  away_def_epa_allowed :: optnum
  home_off_vs_away_def :: optnum
  away_off_epa :: optnum
  home_def_epa_allowed :: optnum
  away_off_vs_home_def :: optnum
  net_epa_per_play :: optnum
  K_pair :: optnum
  pred_margin :: real
  home_win_prob :: real
  pick :: js_string
  pick_prob :: optnum

text \<open>\<open>keyof GameView\<close>, the type of the state variable \<open>sortKey\<close>.\<close>

datatype GameView_key =
    K_game_id | K_week | K_away_team | K_home_team
  | K_home_off_epa | K_away_def_epa_allowed | K_home_off_vs_away_def
  | K_away_off_epa | K_home_def_epa_allowed | K_away_off_vs_home_def
  | K_net_epa_per_play | K_K_pair
  | K_pred_margin | K_home_win_prob | K_pick | K_pick_prob


section \<open>The predictions page (app/page.tsx)\<close>

text \<open>The property read \<open>a[sortKey]\<close>.\<close>

fun row_prop :: "GameView_key \<Rightarrow> GameView \<Rightarrow> jsval" where
  "row_prop K_game_id a = (case game_id a of IdStr s \<Rightarrow> VString s | IdNum x \<Rightarrow> VNumber (Fin x))"
| "row_prop K_week a = VNumber (Fin (week a))"
| "row_prop K_away_team a = VString (away_team a)"
| "row_prop K_home_team a = VString (home_team a)"
| "row_prop K_home_off_epa a = optnum_val (home_off_epa a)"
| "row_prop K_away_def_epa_allowed a = optnum_val (away_def_epa_allowed a)"
| "row_prop K_home_off_vs_away_def a = optnum_val (home_off_vs_away_def a)"
| "row_prop K_away_off_epa a = optnum_val (away_off_epa a)"
| "row_prop K_home_def_epa_allowed a = optnum_val (home_def_epa_allowed a)"
| "row_prop K_away_off_vs_home_def a = optnum_val (away_off_vs_home_def a)"
| "row_prop K_net_epa_per_play a = optnum_val (net_epa_per_play a)"
| "row_prop K_K_pair a = optnum_val (K_pair a)"
| "row_prop K_pred_margin a = VNumber (Fin (pred_margin a))"
| "row_prop K_home_win_prob a = VNumber (Fin (home_win_prob a))"
| "row_prop K_pick a = VString (pick a)"
| "row_prop K_pick_prob a = optnum_val (pick_prob a)"

text \<open>
  The comparator passed to \<open>copy.sort\<close>:
  \<^verbatim>\<open>
  const av = a[sortKey] ?? -Infinity;
  const bv = b[sortKey] ?? -Infinity;
  if (av < bv) return sortDir === "asc" ? -1 : 1;
  if (av > bv) return sortDir === "asc" ? 1 : -1;
  return (b.pick_prob ?? 0) - (a.pick_prob ?? 0); // tie-breaker
  \<close>
\<close>

definition sort_value :: "GameView_key \<Rightarrow> GameView \<Rightarrow> jsval" where
  "sort_value key a = coalesce (row_prop key a) (VNumber NegInf)"

definition compare_page ::
  "(js_string \<Rightarrow> jsnum) \<Rightarrow> GameView_key \<Rightarrow> sort_dir \<Rightarrow> GameView \<Rightarrow> GameView \<Rightarrow> real" where
  "compare_page tn key dir a b =
     (let av = sort_value key a;
          bv = sort_value key b
      in if js_lt tn av bv then (if dir = Asc then - 1 else 1)
         else if js_lt tn bv av then (if dir = Asc then 1 else - 1)
         else nullish_or (pick_prob b) 0 - nullish_or (pick_prob a) 0)"

text \<open>\<open>sorted\<close>: the copy \<open>[...rows]\<close>, sorted, is the value of the memo.\<close>

definition sorted_page ::
  "(js_string \<Rightarrow> jsnum) \<Rightarrow> GameView list \<Rightarrow> GameView_key \<Rightarrow> sort_dir \<Rightarrow> GameView list" where
  "sorted_page tn rows key dir = array_sort (compare_page tn key dir) rows"

text \<open>A row's value at the key is missing: the property read gives \<open>undefined\<close> or \<open>null\<close>.\<close>

fun nullish :: "jsval \<Rightarrow> bool" where
  "nullish VUndefined = True"
| "nullish VNull = True"
| "nullish v = False"

definition missing :: "GameView_key \<Rightarrow> GameView \<Rightarrow> bool" where
  "missing key a = nullish (row_prop key a)"

text \<open>
  Two rows compare equal at the primary key: neither \<open>av < bv\<close> nor \<open>av > bv\<close>, the case
  in which the comparator falls through to its last line.
\<close>

definition tie :: "(js_string \<Rightarrow> jsnum) \<Rightarrow> GameView_key \<Rightarrow> GameView \<Rightarrow> GameView \<Rightarrow> bool" where
  "tie tn key a b =
     (\<not> js_lt tn (sort_value key a) (sort_value key b) \<and>
      \<not> js_lt tn (sort_value key b) (sort_value key a))"

text \<open>
  The rows of a response give \<open>game_id\<close> one type: all strings or all numbers. Only then
  is the column free of comparisons between a string and a number.
\<close>

definition uniform_ids :: "GameView list \<Rightarrow> bool" where
  "uniform_ids rows = (list_all (\<lambda>r. is_IdStr (game_id r)) rows \<or> list_all (\<lambda>r. is_IdNum (game_id r)) rows)"


section \<open>The other copy of the predictions page (unnamed/part_000)\<close>

text \<open>
  The same component with other markup. Its comparator names the two operands of the
  tie-breaker:
  \<^verbatim>\<open>
  const ap = a.pick_prob ?? 0;
  const bp = b.pick_prob ?? 0;
  return bp - ap;
  \<close>
\<close>

definition compare_part000 ::
  "(js_string \<Rightarrow> jsnum) \<Rightarrow> GameView_key \<Rightarrow> sort_dir \<Rightarrow> GameView \<Rightarrow> GameView \<Rightarrow> real" where
  "compare_part000 tn key dir a b =
     (let av = coalesce (row_prop key a) (VNumber NegInf);
          bv = coalesce (row_prop key b) (VNumber NegInf)
      in if js_lt tn av bv then (if dir = Asc then - 1 else 1)
         else if js_lt tn bv av then (if dir = Asc then 1 else - 1)
         else (let ap = nullish_or (pick_prob a) 0;
                   bp = nullish_or (pick_prob b) 0
               in bp - ap))"

definition sorted_part000 ::
  "(js_string \<Rightarrow> jsnum) \<Rightarrow> GameView list \<Rightarrow> GameView_key \<Rightarrow> sort_dir \<Rightarrow> GameView list" where
  "sorted_part000 tn rows key dir = array_sort (compare_part000 tn key dir) rows"


section \<open>The history page (app/history/page.tsx)\<close>

fun history_prop :: "HistoryRow_key \<Rightarrow> HistoryRow \<Rightarrow> jsval" where
  "history_prop H_id a = VNumber (Fin (id_row a))"
| "history_prop H_season a = VNumber (Fin (season a))"
| "history_prop H_week a = VNumber (Fin (HistoryRow.week a))"
| "history_prop H_game_id a = VString (HistoryRow.game_id a)"
| "history_prop H_created_at a = VString (created_at a)"
| "history_prop H_home_team a = VString (HistoryRow.home_team a)"
| "history_prop H_away_team a = VString (HistoryRow.away_team a)"
| "history_prop H_pred_margin a = VNumber (Fin (HistoryRow.pred_margin a))"
| "history_prop H_home_win_prob a = VNumber (Fin (HistoryRow.home_win_prob a))"
| "history_prop H_pick a = VString (HistoryRow.pick a)"
| "history_prop H_pick_prob a = VNumber (Fin (HistoryRow.pick_prob a))"

text \<open>
  The comparator of the history page has no default for a missing value and no
  tie-breaker:
  \<^verbatim>\<open>
  const av = a[sortKey];
  const bv = b[sortKey];
  if (av < bv) return sortDir === "asc" ? -1 : 1;
  if (av > bv) return sortDir === "asc" ? 1 : -1;
  return 0;
  \<close>
\<close>

definition compare_history ::
  "(js_string \<Rightarrow> jsnum) \<Rightarrow> HistoryRow_key \<Rightarrow> sort_dir \<Rightarrow> HistoryRow \<Rightarrow> HistoryRow \<Rightarrow> real" where
  "compare_history tn key dir a b =
     (let av = history_prop key a;
          bv = history_prop key b
      in if js_lt tn av bv then (if dir = Asc then - 1 else 1)
         else if js_lt tn bv av then (if dir = Asc then 1 else - 1)
         else 0)"

definition sorted_history ::
  "(js_string \<Rightarrow> jsnum) \<Rightarrow> HistoryRow list \<Rightarrow> HistoryRow_key \<Rightarrow> sort_dir \<Rightarrow> HistoryRow list" where
  "sorted_history tn rows key dir = array_sort (compare_history tn key dir) rows"


section \<open>The arrays and rows as objects\<close>

text \<open>
  To say what \<open>sorted\<close> writes, arrays and rows are objects in a store: \<open>objs\<close> maps a
  reference to the row it denotes, \<open>arrs\<close> maps a reference to the array it denotes (a
  list of references to rows), and \<open>next_arr\<close> is the first array reference not yet in use.
  \<open>[...rows]\<close> allocates a new array holding the same row references; \<open>copy.sort(f)\<close>
  permutes the slots of \<open>copy\<close> in place, \<open>f\<close> reading the rows through their references.
\<close>

record 'r store =
  objs :: "nat \<Rightarrow> 'r"
  arrs :: "nat \<Rightarrow> nat list"
  next_arr :: nat

definition spread :: "nat \<Rightarrow> 'r store \<Rightarrow> nat \<times> 'r store" where
  "spread src h =
     (let copy = next_arr h
      in (copy, h\<lparr>arrs := (arrs h)(copy := arrs h src), next_arr := Suc copy\<rparr>))"

definition sort_in_place :: "('r \<Rightarrow> 'r \<Rightarrow> real) \<Rightarrow> nat \<Rightarrow> 'r store \<Rightarrow> 'r store" where
  "sort_in_place f arr h =
     h\<lparr>arrs := (arrs h)(arr := array_sort (\<lambda>a b. f (objs h a) (objs h b)) (arrs h arr))\<rparr>"

definition sorted_page_store ::
  "(js_string \<Rightarrow> jsnum) \<Rightarrow> nat \<Rightarrow> GameView_key \<Rightarrow> sort_dir \<Rightarrow> GameView store \<Rightarrow> nat \<times> GameView store" where
  "sorted_page_store tn rows key dir h =
     (let (copy, h1) = spread rows h;
          h2 = sort_in_place (compare_page tn key dir) copy h1
      in (copy, h2))"

definition sorted_history_store ::
  "(js_string \<Rightarrow> jsnum) \<Rightarrow> nat \<Rightarrow> HistoryRow_key \<Rightarrow> sort_dir \<Rightarrow> HistoryRow store \<Rightarrow> nat \<times> HistoryRow store" where
  "sorted_history_store tn rows key dir h =
     (let (copy, h1) = spread rows h;
          h2 = sort_in_place (compare_history tn key dir) copy h1
      in (copy, h2))"

text \<open>The rows an array reference denotes.\<close>

definition rows_of :: "'r store \<Rightarrow> nat \<Rightarrow> 'r list" where
  "rows_of h arr = map (objs h) (arrs h arr)"


section \<open>The state of a page, toggleSort and fetchData\<close>

text \<open>
  Both pages hold the same state: the fetched rows, the busy flag, the error string and
  the sort key and direction (the season, week and limit inputs only build the URL of
  the request).
\<close>

record ('r, 'k) page_state =
  rows :: "'r list"
  loading :: bool
  err :: "js_string option"
  sortKey :: 'k
  sortDir :: sort_dir

text \<open>The state a page starts in: the initial values of its \<open>useState\<close> calls.\<close>

definition initial_page :: "(GameView, GameView_key) page_state" where
  "initial_page = \<lparr>rows = [], loading = False, err = None, sortKey = K_pick_prob, sortDir = Desc\<rparr>"

definition initial_history :: "(HistoryRow, HistoryRow_key) page_state" where
  "initial_history = \<lparr>rows = [], loading = False, err = None, sortKey = H_created_at, sortDir = Desc\<rparr>"

text \<open>
  \<^verbatim>\<open>
  if (sortKey === key) setSortDir((d) => (d === "asc" ? "desc" : "asc"));
  else { setSortKey(key); setSortDir("desc"); }
  \<close>
  The text is the same on both pages.
\<close>

definition toggleSort :: "'k \<Rightarrow> ('r, 'k) page_state \<Rightarrow> ('r, 'k) page_state" where
  "toggleSort key st =
     (if sortKey st = key then st\<lparr>sortDir := (if sortDir st = Asc then Desc else Asc)\<rparr>
      else st\<lparr>sortKey := key, sortDir := Desc\<rparr>)"

text \<open>The sorted view each page renders from its state.\<close>

definition view_page :: "(js_string \<Rightarrow> jsnum) \<Rightarrow> (GameView, GameView_key) page_state \<Rightarrow> GameView list" where
  "view_page tn st = sorted_page tn (rows st) (sortKey st) (sortDir st)"

definition view_history :: "(js_string \<Rightarrow> jsnum) \<Rightarrow> (HistoryRow, HistoryRow_key) page_state \<Rightarrow> HistoryRow list" where
  "view_history tn st = sorted_history tn (rows st) (sortKey st) (sortDir st)"

text \<open>
  What a request can do. \<open>await fetch(url)\<close> either throws or gives a response with a
  status; \<open>await res.json()\<close> either throws or gives the rows. Of a thrown value \<open>e\<close> the
  code reads only \<open>e?.message\<close>, which is \<open>None\<close> here when it is \<open>undefined\<close> or \<open>null\<close>.
  \<open>res.ok\<close> is true exactly for a status from 200 to 299.
\<close>

type_synonym thrown = "js_string option"

datatype 'r outcome = Rejected thrown | Resolved nat "thrown + 'r list"

definition ok :: "nat \<Rightarrow> bool" where
  "ok status = (200 \<le> status \<and> status \<le> 299)"

text \<open>The decimal digits of a natural number, as a template literal prints it.\<close>

fun decimal :: "nat \<Rightarrow> js_string" where
  "decimal n = (if n < 10 then [48 + n] else decimal (n div 10) @ [48 + n mod 10])"

declare decimal.simps [simp del]

text \<open>
  The body of the \<open>try\<close> block, which ends by a throw or with the rows to store:
  \<^verbatim>\<open>
  const res = await fetch(..., { cache: "no-store" });
  if (!res.ok) throw new Error(`HTTP ${res.status}`);
  const data: GameView[] = await res.json();
  setRows(data);
  \<close>
\<close>

definition fetch_try :: "'r outcome \<Rightarrow> thrown + 'r list" where
  "fetch_try out =
     (case out of
        Rejected e \<Rightarrow> Inl e
      | Resolved status body \<Rightarrow>
          if \<not> ok status then Inl (Some (lit ''HTTP '' @ decimal status))
          else (case body of Inl e \<Rightarrow> Inl e | Inr data \<Rightarrow> Inr data))"

text \<open>
  \<open>fetchData\<close>: the state when the operation has settled, or the value it throws.
  \<^verbatim>\<open>
  setLoading(true); setErr(null);
  try { ... } catch (e: any) { setErr(e?.message ?? "Failed to load"); }
  finally { setLoading(false); }
  \<close>
\<close>

definition fetchData :: "('r, 'k) page_state \<Rightarrow> 'r outcome \<Rightarrow> thrown + ('r, 'k) page_state" where
  "fetchData st out =
     (let st1 = st\<lparr>loading := True, err := None\<rparr>;
          st2 = (case fetch_try out of
                   Inr data \<Rightarrow> st1\<lparr>rows := data\<rparr>
                 | Inl e \<Rightarrow> st1\<lparr>err := Some (case e of None \<Rightarrow> lit ''Failed to load'' | Some m \<Rightarrow> m)\<rparr>)
      in Inr (st2\<lparr>loading := False\<rparr>))"

text \<open>
  The states of the predictions page. The headers of its table call \<open>toggleSort\<close> with
  the keys \<open>pred_margin\<close>, \<open>home_win_prob\<close>, \<open>pick_prob\<close>, \<open>net_epa_per_play\<close> and \<open>K_pair\<close>
  (the Matchup header has no handler). The page starts in \<open>initial_page\<close>; a click on a
  header toggles the sort by its key; a request starts, raising the busy flag and
  clearing the error, and later settles.
\<close>

definition header_keys :: "GameView_key list" where
  "header_keys = [K_pred_margin, K_home_win_prob, K_pick_prob, K_net_epa_per_play, K_K_pair]"

inductive reachable :: "(GameView, GameView_key) page_state \<Rightarrow> bool" where
  start: "reachable initial_page"
| click: "reachable st \<Longrightarrow> key \<in> set header_keys \<Longrightarrow> reachable (toggleSort key st)"
| busy: "reachable st \<Longrightarrow> reachable (st\<lparr>loading := True, err := None\<rparr>)"
| settle: "reachable st \<Longrightarrow> fetchData st out = Inr st' \<Longrightarrow> reachable st'"


section \<open>fmtNum\<close>

text \<open>
  \<open>Number.prototype.toFixed\<close>, as ECMA-262 defines it on the exact value of the number:
  a \<open>RangeError\<close> unless the digit count is from 0 to 100; a sign for a negative number;
  below \<open>10^21\<close> the integer \<open>n\<close> nearest to \<open>x * 10^f\<close>, the larger of two, printed with
  \<open>f\<close> digits after the point; from \<open>10^21\<close> on, the number's ordinary string, whose
  digits depend on the double and are left to the parameter \<open>to_string\<close>.
\<close>

datatype js_error = RangeError

definition toFixed :: "(real \<Rightarrow> js_string) \<Rightarrow> real \<Rightarrow> int \<Rightarrow> js_error + js_string" where
  "toFixed to_string x0 d =
     (if d < 0 \<or> 100 < d then Inl RangeError
      else
        let f = nat d;
            s = (if x0 < 0 then lit ''-'' else []);
            x = (if x0 < 0 then - x0 else x0)
        in if 10 ^ 21 \<le> x then Inr (s @ to_string x)
           else
             let n = nat \<lfloor>x * 10 ^ f + 1 / 2\<rfloor>;
                 m = (if n = 0 then lit ''0'' else decimal n)
             in if f \<noteq> 0 then
                  let k = length m;
                      m' = (if k \<le> f then replicate (f + 1 - k) 48 @ m else m);
                      k' = (if k \<le> f then f + 1 else k);
                      a = take (k' - f) m';
                      b = drop (k' - f) m'
                  in Inr (s @ a @ lit ''.'' @ b)
                else Inr (s @ m))"

text \<open>The placeholder: the one code unit U+2014, an em dash.\<close>

definition em_dash :: js_string where
  "em_dash = [8212]"

text \<open>
  \<^verbatim>\<open>
  const fmtNum = (x: number | null | undefined, d = 2) =>
    x === null || x === undefined ? [em dash] : x.toFixed(d);
  \<close>
  A call without \<open>d\<close> is \<open>fmtNum to_string x 2\<close>; the table calls it with 3 and 1 as well.
\<close>

definition fmtNum :: "(real \<Rightarrow> js_string) \<Rightarrow> optnum \<Rightarrow> int \<Rightarrow> js_error + js_string" where
  "fmtNum to_string x d =
     (case x of Null \<Rightarrow> Inr em_dash | Undefined \<Rightarrow> Inr em_dash | Number v \<Rightarrow> toFixed to_string v d)"


section \<open>Values of one kind\<close>

text \<open>
  Where the values at the key are all numbers (finite or \<open>-Infinity\<close>), or all strings,
  \<open>av < bv\<close> is the order of a rank: an optional real with \<open>None\<close> below every number, or
  the string itself.
\<close>

fun numeric :: "jsval \<Rightarrow> bool" where
  "numeric (VNumber (Fin x)) = True"
| "numeric (VNumber NegInf) = True"
| "numeric v = False"

fun stringy :: "jsval \<Rightarrow> bool" where
  "stringy (VString s) = True"
| "stringy v = False"

fun num_rank :: "jsval \<Rightarrow> real option" where
  "num_rank (VNumber (Fin x)) = Some x"
| "num_rank v = None"

fun str_rank :: "jsval \<Rightarrow> js_string" where
  "str_rank (VString s) = s"
| "str_rank v = []"

text \<open>The keys of \<open>GameView\<close> whose declared type is \<open>string\<close>.\<close>

fun string_key :: "GameView_key \<Rightarrow> bool" where
  "string_key K_away_team = True"
| "string_key K_home_team = True"
| "string_key K_pick = True"
| "string_key k = False"

section \<open>Sample inputs\<close>

text \<open>
  A coercion that reads no string as a number. The samples below never compare a string
  with a number, so they evaluate to the same lists under every coercion.
\<close>

definition no_number :: "js_string \<Rightarrow> jsnum" where
  "no_number s = NaN"

text \<open>
  A prediction row with the given margin, pick probability and net EPA per play, and a
  snapshot row with the given id and pick probability.
\<close>

definition game :: "real \<Rightarrow> optnum \<Rightarrow> optnum \<Rightarrow> GameView" where
  "game m p e =
     \<lparr>game_id = IdNum 1, week = 8, away_team = lit ''KC'', home_team = lit ''BUF'',
      home_off_epa = Undefined, away_def_epa_allowed = Undefined,
      home_off_vs_away_def = Undefined, away_off_epa = Undefined,
      home_def_epa_allowed = Undefined, away_off_vs_home_def = Undefined,
      net_epa_per_play = e, K_pair = Undefined,
      pred_margin = m, home_win_prob = 3 / 5, pick = lit ''BUF'', pick_prob = p\<rparr>"

definition snapshot :: "real \<Rightarrow> real \<Rightarrow> HistoryRow" where
  "snapshot i p =
     \<lparr>id_row = i, season = 2025, HistoryRow.week = 8, HistoryRow.game_id = lit ''g1'',
      created_at = lit ''2025-10-20'', HistoryRow.home_team = lit ''BUF'',
      HistoryRow.away_team = lit ''KC'', HistoryRow.pred_margin = 3,
      HistoryRow.home_win_prob = 3 / 5, HistoryRow.pick = lit ''BUF'',
      HistoryRow.pick_prob = p\<rparr>"

text \<open>A state of the predictions page after two rows with the same margin have been fetched.\<close>

definition loaded_page :: "(GameView, GameView_key) page_state" where
  "loaded_page = initial_page\<lparr>rows := [game 3 (Number (11 / 20)) Null, game 3 (Number (4 / 5)) Null]\<rparr>"

text \<open>
  A store for each page: two rows, and at reference 0 the array of fetched rows holding
  them in the order fetched.
\<close>

definition sample_store :: "GameView store" where
  "sample_store =
     \<lparr>objs = (\<lambda>r. if r = 0 then game 3 (Number (11 / 20)) Null else game 7 (Number (3 / 5)) Null),
      arrs = (\<lambda>a. if a = 0 then [0, 1] else []),
      next_arr = 1\<rparr>"

definition sample_history_store :: "HistoryRow store" where
  "sample_history_store =
     \<lparr>objs = (\<lambda>r. if r = 0 then snapshot 1 (11 / 20) else snapshot 2 (4 / 5)),
      arrs = (\<lambda>a. if a = 0 then [0, 1] else []),
      next_arr = 1\<rparr>"

section \<open>Facts about the sort\<close>

lemma mset_sort_insert: "mset (sort_insert f x ys) = add_mset x (mset ys)"
  by (induction ys) simp_all

lemma mset_array_sort: "mset (array_sort f xs) = mset xs"
  by (induction xs) (simp_all add: mset_sort_insert)

lemma set_array_sort: "set (array_sort f xs) = set xs"
  using mset_array_sort [of f xs] by (metis set_mset_mset)

lemma set_sort_insert: "set (sort_insert f x ys) = insert x (set ys)"
  using mset_sort_insert [of f x ys] by (metis set_mset_add_mset_insert set_mset_mset)

lemma sort_insert_Cons:
  "sort_insert f x (y # ys) = (if precedes f x y then x # y # ys else y # sort_insert f x ys)"
  by (simp add: precedes_def)

lemma consistent_on_subset: "consistent_on f T \<Longrightarrow> S \<subseteq> T \<Longrightarrow> consistent_on f S"
  unfolding consistent_on_def by blast

lemma consistent_on_total:
  "consistent_on f S \<Longrightarrow> x \<in> S \<Longrightarrow> y \<in> S \<Longrightarrow> \<not> precedes f x y \<Longrightarrow> precedes f y x"
  unfolding consistent_on_def by blast

lemma consistent_on_trans:
  "consistent_on f S \<Longrightarrow> x \<in> S \<Longrightarrow> y \<in> S \<Longrightarrow> z \<in> S \<Longrightarrow>
     precedes f x y \<Longrightarrow> precedes f y z \<Longrightarrow> precedes f x z"
  unfolding consistent_on_def by blast

lemma sorted_wrt_sort_insert:
  assumes "sorted_wrt (precedes f) ys" and "consistent_on f (insert x (set ys))"
  shows "sorted_wrt (precedes f) (sort_insert f x ys)"
  using assms
proof (induction ys)
  case Nil
  then show ?case by simp
next
  case (Cons y ys)
  let ?S = "insert x (set (y # ys))"
  have tail: "sorted_wrt (precedes f) ys" and head: "\<forall>z\<in>set ys. precedes f y z"
    using Cons.prems(1) by simp_all
  show ?case
  proof (cases "precedes f x y")
    case True
    have "\<forall>z\<in>set ys. precedes f x z"
    proof
      fix z assume z: "z \<in> set ys"
      with head have "precedes f y z" by blast
      with True show "precedes f x z"
        using consistent_on_trans [OF Cons.prems(2), of x y z] z by simp
    qed
    with True Cons.prems(1) show ?thesis by (simp add: sort_insert_Cons del: sort_insert.simps(2))
  next
    case False
    have yx: "precedes f y x"
      using consistent_on_total [OF Cons.prems(2), of x y] False by simp
    have "consistent_on f (insert x (set ys))"
      by (rule consistent_on_subset [OF Cons.prems(2)]) auto
    with tail have "sorted_wrt (precedes f) (sort_insert f x ys)"
      by (rule Cons.IH)
    with False yx head show ?thesis
      by (simp add: sort_insert_Cons set_sort_insert del: sort_insert.simps(2))
  qed
qed

lemma sorted_wrt_array_sort:
  assumes "consistent_on f (set xs)"
  shows "sorted_wrt (precedes f) (array_sort f xs)"
  using assms
proof (induction xs)
  case Nil
  then show ?case by simp
next
  case (Cons x xs)
  have "consistent_on f (set xs)"
    by (rule consistent_on_subset [OF Cons.prems]) auto
  then have "sorted_wrt (precedes f) (array_sort f xs)"
    by (rule Cons.IH)
  moreover have "consistent_on f (insert x (set (array_sort f xs)))"
    using Cons.prems by (simp add: set_array_sort)
  ultimately show ?case
    by (simp add: sorted_wrt_sort_insert)
qed

lemma filter_sort_insert:
  assumes "\<forall>y\<in>set ys. P x \<longrightarrow> P y \<longrightarrow> precedes f x y"
  shows "filter P (sort_insert f x ys) = (if P x then x # filter P ys else filter P ys)"
  using assms by (induction ys) (simp_all add: sort_insert_Cons del: sort_insert.simps(2))

lemma filter_array_sort:
  assumes "\<forall>x\<in>set xs. \<forall>y\<in>set xs. P x \<longrightarrow> P y \<longrightarrow> precedes f x y"
  shows "filter P (array_sort f xs) = filter P xs"
  using assms
proof (induction xs)
  case Nil
  then show ?case by simp
next
  case (Cons x xs)
  have "filter P (array_sort f xs) = filter P xs"
    using Cons.prems by (intro Cons.IH) simp
  moreover have "filter P (sort_insert f x (array_sort f xs)) =
      (if P x then x # filter P (array_sort f xs) else filter P (array_sort f xs))"
    using Cons.prems by (intro filter_sort_insert) (simp add: set_array_sort)
  ultimately show ?case by simp
qed

lemma map_sort_insert:
  "map g (sort_insert (\<lambda>a b. f (g a) (g b)) x ys) = sort_insert f (g x) (map g ys)"
  by (induction ys) simp_all

lemma map_array_sort:
  "map g (array_sort (\<lambda>a b. f (g a) (g b)) xs) = array_sort f (map g xs)"
  by (induction xs) (simp_all add: map_sort_insert)

section \<open>Facts about the comparator of the predictions page\<close>

lemma js_lt_numeric: "numeric a \<Longrightarrow> numeric b \<Longrightarrow> js_lt tn a b = (num_rank a < num_rank b)"
  by (cases a rule: numeric.cases; cases b rule: numeric.cases) simp_all

lemma js_lt_stringy: "stringy a \<Longrightarrow> stringy b \<Longrightarrow> js_lt tn a b = (str_rank a < str_rank b)"
  by (cases a rule: stringy.cases; cases b rule: stringy.cases) simp_all

text \<open>
  For a consistent comparator the sorted array is determined: a list that is sorted and
  keeps, for each element, the elements equivalent to it in the order of the input, is
  the list \<open>array_sort\<close> computes. So the theorems below do not depend on the algorithm
  an engine uses.
\<close>

lemma equivalent_refl: "consistent_on f S \<Longrightarrow> x \<in> S \<Longrightarrow> equivalent f x x"
  unfolding equivalent_def consistent_on_def by blast

lemma equivalent_sym: "equivalent f x y \<Longrightarrow> equivalent f y x"
  unfolding equivalent_def by blast

lemma array_sort_stable:
  assumes "consistent_on f (set xs)" and "x \<in> set xs"
  shows "filter (equivalent f x) (array_sort f xs) = filter (equivalent f x) xs"
proof (rule filter_array_sort, intro ballI impI)
  fix a b
  assume "a \<in> set xs" "b \<in> set xs" "equivalent f x a" "equivalent f x b"
  then show "precedes f a b"
    using consistent_on_trans [OF assms(1), of a x b] assms(2) by (simp add: equivalent_def)
qed

lemma sorted_stable_unique:
  assumes "consistent_on f S" and "set ys \<subseteq> S" and "set zs \<subseteq> S"
    and "sorted_wrt (precedes f) ys" and "sorted_wrt (precedes f) zs"
    and "\<forall>x\<in>S. filter (equivalent f x) ys = filter (equivalent f x) zs"
  shows "ys = zs"
  using assms(2-)
proof (induction ys arbitrary: zs)
  case Nil
  show ?case
  proof (cases zs)
    case Nil
    then show ?thesis by simp
  next
    case (Cons z zs')
    with Nil.prems(2) have z: "z \<in> S" by simp
    with Nil.prems(5) have "[] = filter (equivalent f z) zs" by simp
    with Cons equivalent_refl [OF assms(1) z] show ?thesis by simp
  qed
next
  case (Cons y ys')
  from Cons.prems(1) have y: "y \<in> S" by simp
  have yy: "equivalent f y y" by (rule equivalent_refl [OF assms(1) y])
  from Cons.prems(5) y have fy: "filter (equivalent f y) (y # ys') = filter (equivalent f y) zs"
    by blast
  with yy obtain z zs' where zs: "zs = z # zs'" by (cases zs) auto
  with Cons.prems(2) have z: "z \<in> S" by simp
  have zz: "equivalent f z z" by (rule equivalent_refl [OF assms(1) z])
  from Cons.prems(5) z have fz: "filter (equivalent f z) (y # ys') = filter (equivalent f z) zs"
    by blast
  have eq: "equivalent f y z"
  proof (rule ccontr)
    assume n: "\<not> equivalent f y z"
    with fy yy zs have "y # filter (equivalent f y) ys' = filter (equivalent f y) zs'" by simp
    then have "y \<in> set (filter (equivalent f y) zs')" by (metis list.set_intros(1))
    then have "y \<in> set zs'" by simp
    with Cons.prems(4) zs have zy: "precedes f z y" by simp
    from n have "\<not> equivalent f z y" using equivalent_sym [of f z y] by blast
    with fz zz zs have "filter (equivalent f z) ys' = z # filter (equivalent f z) zs'" by simp
    then have "z \<in> set (filter (equivalent f z) ys')" by (metis list.set_intros(1))
    then have "z \<in> set ys'" by simp
    with Cons.prems(3) have "precedes f y z" by simp
    with zy n show False by (simp add: equivalent_def)
  qed
  with fy yy zs have yz: "y = z" by simp
  have "ys' = zs'"
  proof (rule Cons.IH)
    show "set ys' \<subseteq> S" using Cons.prems(1) by simp
    show "set zs' \<subseteq> S" using Cons.prems(2) zs by simp
    show "sorted_wrt (precedes f) ys'" using Cons.prems(3) by simp
    show "sorted_wrt (precedes f) zs'" using Cons.prems(4) zs by simp
    show "\<forall>x\<in>S. filter (equivalent f x) ys' = filter (equivalent f x) zs'"
    proof
      fix x assume "x \<in> S"
      with Cons.prems(5) have "filter (equivalent f x) (y # ys') = filter (equivalent f x) (y # zs')"
        unfolding zs yz by blast
      then show "filter (equivalent f x) ys' = filter (equivalent f x) zs'"
        by (cases "equivalent f x y") simp_all
    qed
  qed
  with zs yz show ?case by simp
qed

lemma array_sort_unique:
  assumes "consistent_on f (set xs)" and "mset ys = mset xs"
    and "sorted_wrt (precedes f) ys"
    and "\<forall>x\<in>set xs. filter (equivalent f x) ys = filter (equivalent f x) xs"
  shows "ys = array_sort f xs"
proof (rule sorted_stable_unique [OF assms(1)])
  show "set ys \<subseteq> set xs" using assms(2) by (metis mset_eq_setD order_refl)
  show "set (array_sort f xs) \<subseteq> set xs" by (simp add: set_array_sort)
  show "sorted_wrt (precedes f) ys" by (rule assms(3))
  show "sorted_wrt (precedes f) (array_sort f xs)" by (rule sorted_wrt_array_sort [OF assms(1)])
  show "\<forall>x\<in>set xs. filter (equivalent f x) ys = filter (equivalent f x) (array_sort f xs)"
    using assms(4) array_sort_stable [OF assms(1)] by simp
qed

lemma precedes_page_rank:
  fixes rk :: "GameView \<Rightarrow> 'o::linorder"
  assumes "js_lt tn (sort_value k a) (sort_value k b) = (rk a < rk b)"
    and "js_lt tn (sort_value k b) (sort_value k a) = (rk b < rk a)"
  shows "precedes (compare_page tn k d) a b \<longleftrightarrow>
           (if rk a = rk b then nullish_or (pick_prob b) 0 \<le> nullish_or (pick_prob a) 0
            else if d = Asc then rk a < rk b else rk b < rk a)"
  using assms by (auto simp: precedes_def compare_page_def Let_def)

lemma consistent_on_rank:
  fixes rk :: "GameView \<Rightarrow> 'o::linorder"
  assumes rk: "\<forall>a\<in>S. \<forall>b\<in>S. js_lt tn (sort_value k a) (sort_value k b) = (rk a < rk b)"
  shows "consistent_on (compare_page tn k d) S"
proof -
  have p: "precedes (compare_page tn k d) a b \<longleftrightarrow>
           (if rk a = rk b then nullish_or (pick_prob b) 0 \<le> nullish_or (pick_prob a) 0
            else if d = Asc then rk a < rk b else rk b < rk a)"
    if "a \<in> S" "b \<in> S" for a b
    using rk that by (intro precedes_page_rank) blast+
  have total: "precedes (compare_page tn k d) a b \<or> precedes (compare_page tn k d) b a"
    if "a \<in> S" "b \<in> S" for a b
    unfolding p [OF that] p [OF that(2) that(1)] by (cases "rk a" "rk b" rule: linorder_cases) auto
  have trans: "precedes (compare_page tn k d) a c"
    if "a \<in> S" "b \<in> S" "c \<in> S" "precedes (compare_page tn k d) a b" "precedes (compare_page tn k d) b c"
    for a b c
    using that(4,5) unfolding p [OF that(1,2)] p [OF that(2,3)] p [OF that(1,3)]
    by (auto split: if_splits)
  show ?thesis
    unfolding consistent_on_def using total trans by blast
qed

lemma numeric_coalesce: "numeric (coalesce (optnum_val v) (VNumber NegInf))"
  by (cases v) simp_all

lemma sort_value_kind:
  "k \<noteq> K_game_id \<Longrightarrow>
     (if string_key k then stringy (sort_value k a) else numeric (sort_value k a))"
  by (cases k) (simp_all add: sort_value_def numeric_coalesce)

lemma sort_value_IdStr: "is_IdStr (game_id a) \<Longrightarrow> stringy (sort_value K_game_id a)"
  by (cases "game_id a") (simp_all add: sort_value_def)

lemma sort_value_IdNum: "is_IdNum (game_id a) \<Longrightarrow> numeric (sort_value K_game_id a)"
  by (cases "game_id a") (simp_all add: sort_value_def)

lemma one_kind:
  assumes "k = K_game_id \<longrightarrow> uniform_ids rs"
  shows "(\<forall>a\<in>set rs. numeric (sort_value k a)) \<or> (\<forall>a\<in>set rs. stringy (sort_value k a))"
proof (cases "k = K_game_id")
  case True
  with assms have "uniform_ids rs" by simp
  then show ?thesis
    unfolding uniform_ids_def list_all_iff True
    using sort_value_IdStr sort_value_IdNum by blast
next
  case False
  then show ?thesis
    using sort_value_kind [of k] by (cases "string_key k") simp_all
qed

lemma consistent_page:
  assumes "k = K_game_id \<longrightarrow> uniform_ids rs"
  shows "consistent_on (compare_page tn k d) (set rs)"
proof -
  from one_kind [OF assms] show ?thesis
  proof
    assume "\<forall>a\<in>set rs. numeric (sort_value k a)"
    then have "\<forall>a\<in>set rs. \<forall>b\<in>set rs.
        js_lt tn (sort_value k a) (sort_value k b) = (num_rank (sort_value k a) < num_rank (sort_value k b))"
      by (simp add: js_lt_numeric)
    then show ?thesis by (rule consistent_on_rank)
  next
    assume "\<forall>a\<in>set rs. stringy (sort_value k a)"
    then have "\<forall>a\<in>set rs. \<forall>b\<in>set rs.
        js_lt tn (sort_value k a) (sort_value k b) = (str_rank (sort_value k a) < str_rank (sort_value k b))"
      by (simp add: js_lt_stringy)
    then show ?thesis by (rule consistent_on_rank)
  qed
qed

lemma sorted_page_sorted:
  assumes "k = K_game_id \<longrightarrow> uniform_ids rs"
  shows "sorted_wrt (precedes (compare_page tn k d)) (sorted_page tn rs k d)"
  unfolding sorted_page_def using consistent_page [OF assms] by (rule sorted_wrt_array_sort)

lemma sorted_page_nth:
  assumes "k = K_game_id \<longrightarrow> uniform_ids rs"
    and "i < j" and "j < length (sorted_page tn rs k d)"
  shows "precedes (compare_page tn k d) (sorted_page tn rs k d ! i) (sorted_page tn rs k d ! j)"
  using sorted_page_sorted [OF assms(1), of tn d] assms(2,3) by (simp add: sorted_wrt_iff_nth_less)

lemma precedes_tie:
  "tie tn k a b \<Longrightarrow>
     precedes (compare_page tn k d) a b = (nullish_or (pick_prob b) 0 \<le> nullish_or (pick_prob a) 0)"
  by (simp add: tie_def precedes_def compare_page_def Let_def)

lemma opt_missing_lt:
  assumes "nullish (optnum_val u)" and "\<not> nullish (optnum_val v)"
  shows "js_lt tn (coalesce (optnum_val u) (VNumber NegInf)) (coalesce (optnum_val v) (VNumber NegInf))"
    and "\<not> js_lt tn (coalesce (optnum_val v) (VNumber NegInf)) (coalesce (optnum_val u) (VNumber NegInf))"
  using assms by (cases u; cases v; simp)+

lemma missing_lt:
  assumes "missing k a" and "\<not> missing k b"
  shows "js_lt tn (sort_value k a) (sort_value k b)"
    and "\<not> js_lt tn (sort_value k b) (sort_value k a)"
  using assms
  by (cases k; simp add: missing_def sort_value_def opt_missing_lt split: game_id.splits)+

lemma game_id_never_missing: "missing K_game_id a = False"
  by (simp add: missing_def split: game_id.splits)

lemma missing_precedes:
  assumes "missing k a" and "\<not> missing k b"
  shows "precedes (compare_page tn k Asc) a b" "\<not> precedes (compare_page tn k Asc) b a"
    "precedes (compare_page tn k Desc) b a" "\<not> precedes (compare_page tn k Desc) a b"
  using missing_lt [OF assms, of tn] by (simp_all add: precedes_def compare_page_def Let_def)

section \<open>Missing values\<close>

lemma missing_first_asc:
  assumes "i < length (sorted_page tn rs k Asc)" and "j < length (sorted_page tn rs k Asc)"
    and "missing k (sorted_page tn rs k Asc ! i)" and "\<not> missing k (sorted_page tn rs k Asc ! j)"
  shows "i < j"
proof (rule ccontr)
  assume "\<not> i < j"
  moreover from assms(3,4) have "i \<noteq> j" by auto
  ultimately have ji: "j < i" by simp
  from assms(3) have k: "k \<noteq> K_game_id" using game_id_never_missing by auto
  then have "precedes (compare_page tn k Asc) (sorted_page tn rs k Asc ! j) (sorted_page tn rs k Asc ! i)"
    using ji assms(1) by (intro sorted_page_nth) simp_all
  with missing_precedes(2) [OF assms(3,4)] show False by simp
qed

lemma missing_last_desc:
  assumes "i < length (sorted_page tn rs k Desc)" and "j < length (sorted_page tn rs k Desc)"
    and "missing k (sorted_page tn rs k Desc ! i)" and "\<not> missing k (sorted_page tn rs k Desc ! j)"
  shows "j < i"
proof (rule ccontr)
  assume "\<not> j < i"
  moreover from assms(3,4) have "i \<noteq> j" by auto
  ultimately have ij: "i < j" by simp
  from assms(3) have k: "k \<noteq> K_game_id" using game_id_never_missing by auto
  then have "precedes (compare_page tn k Desc) (sorted_page tn rs k Desc ! i) (sorted_page tn rs k Desc ! j)"
    using ij assms(2) by (intro sorted_page_nth) simp_all
  with missing_precedes(4) [OF assms(3,4)] show False by simp
qed

lemma history_prop_not_nullish: "\<not> nullish (history_prop hk h)"
  by (cases hk) simp_all

lemma missing_sort_value: "missing k a \<Longrightarrow> sort_value k a = VNumber NegInf"
  by (cases "row_prop k a") (simp_all add: missing_def sort_value_def)

text \<open>
  C1. On the predictions page, for every row list, sort key and direction, a row whose
  value at the sort key is missing (\<open>undefined\<close> or \<open>null\<close>) is compared as \<open>-Infinity\<close>
  there; in the sorted list every such row stands before every row with a value under
  ascending sort, and after every such row under descending sort. On the history page
  no row has a missing value, each field of \<open>HistoryRow\<close> being required.
\<close>

theorem missing_sorts_as_negative_infinity:
  "\<not> nullish (history_prop hk h) \<and>
   (missing k a \<longrightarrow> sort_value k a = VNumber NegInf) \<and>
   (\<forall>i j. i < length (sorted_page tn rs k Asc) \<and> j < length (sorted_page tn rs k Asc) \<and>
      missing k (sorted_page tn rs k Asc ! i) \<and> \<not> missing k (sorted_page tn rs k Asc ! j)
      \<longrightarrow> i < j) \<and>
   (\<forall>i j. i < length (sorted_page tn rs k Desc) \<and> j < length (sorted_page tn rs k Desc) \<and>
      missing k (sorted_page tn rs k Desc ! i) \<and> \<not> missing k (sorted_page tn rs k Desc ! j)
      \<longrightarrow> j < i)"
  using history_prop_not_nullish missing_sort_value missing_first_asc missing_last_desc by blast

text \<open>The sample rows.\<close>

lemma game_simps [simp]:
  "pred_margin (game m p e) = m" "pick_prob (game m p e) = p" "net_epa_per_play (game m p e) = e"
  "game_id (game m p e) = IdNum 1"
  by (simp_all add: game_def)

lemma game_eq_iff [simp]: "game m p e = game m' p' e' \<longleftrightarrow> m = m' \<and> p = p' \<and> e = e'"
  by (auto simp: game_def)

lemma sorted_example_null_asc:
  "sorted_page tn [game 3 (Number (11 / 20)) (Number 1), game 7 (Number (3 / 5)) Null]
     K_net_epa_per_play Asc
   = [game 7 (Number (3 / 5)) Null, game 3 (Number (11 / 20)) (Number 1)]"
  by (simp add: sorted_page_def compare_page_def sort_value_def)

lemma sorted_example_null_desc:
  "sorted_page tn [game 3 (Number (11 / 20)) (Number 1), game 7 (Number (3 / 5)) Null]
     K_net_epa_per_play Desc
   = [game 3 (Number (11 / 20)) (Number 1), game 7 (Number (3 / 5)) Null]"
  by (simp add: sorted_page_def compare_page_def sort_value_def)

theorem missing_sorts_as_negative_infinity_witness:
  "missing K_net_epa_per_play (game 7 (Number (3 / 5)) Null) \<and>
   \<not> missing K_net_epa_per_play (game 3 (Number (11 / 20)) (Number 1)) \<and>
   sort_value K_net_epa_per_play (game 7 (Number (3 / 5)) Null) = VNumber NegInf \<and>
   sorted_page no_number [game 3 (Number (11 / 20)) (Number 1), game 7 (Number (3 / 5)) Null]
     K_net_epa_per_play Asc
     = [game 7 (Number (3 / 5)) Null, game 3 (Number (11 / 20)) (Number 1)] \<and>
   sorted_page no_number [game 3 (Number (11 / 20)) (Number 1), game 7 (Number (3 / 5)) Null]
     K_net_epa_per_play Desc
     = [game 3 (Number (11 / 20)) (Number 1), game 7 (Number (3 / 5)) Null]"
proof -
  let ?a = "game 7 (Number (3 / 5)) Null"
  let ?rs = "[game 3 (Number (11 / 20)) (Number 1), ?a]"
  have m: "missing K_net_epa_per_play ?a"
    and d: "\<not> missing K_net_epa_per_play (game 3 (Number (11 / 20)) (Number 1))"
    by (simp_all add: missing_def)
  from m missing_sorts_as_negative_infinity [of H_id "snapshot 1 1" K_net_epa_per_play ?a no_number ?rs]
  have "sort_value K_net_epa_per_play ?a = VNumber NegInf" by blast
  with m d show ?thesis
    using sorted_example_null_asc [of no_number] sorted_example_null_desc [of no_number] by simp
qed

section \<open>The sort key of the predictions page\<close>

lemma header_keys_not_game_id: "k \<in> set header_keys \<Longrightarrow> k \<noteq> K_game_id"
  by (auto simp: header_keys_def)

lemma toggleSort_header_keys:
  "key \<in> set header_keys \<Longrightarrow> sortKey st \<in> set header_keys \<Longrightarrow>
     sortKey (toggleSort key st) \<in> set header_keys"
  by (simp add: toggleSort_def)

lemma initial_page_header_key: "sortKey initial_page \<in> set header_keys"
  by (simp add: initial_page_def header_keys_def)

lemma fetchData_sortKey: "fetchData st out = Inr st' \<Longrightarrow> sortKey st' = sortKey st"
  by (auto simp: fetchData_def Let_def split: sum.splits)

lemma reachable_header_key: "reachable st \<Longrightarrow> sortKey st \<in> set header_keys"
proof (induction rule: reachable.induct)
  case start
  show ?case by (rule initial_page_header_key)
next
  case (click st key)
  then show ?case by (simp add: toggleSort_header_keys)
next
  case (busy st)
  then show ?case by simp
next
  case (settle st out st')
  then show ?case by (simp add: fetchData_sortKey)
qed

lemma reachable_consistent:
  "reachable st \<Longrightarrow> consistent_on (compare_page tn (sortKey st) (sortDir st)) (set (rows st))"
  using reachable_header_key [of st] header_keys_not_game_id [of "sortKey st"]
  by (intro consistent_page) simp

text \<open>
  So in every state the page can reach the comparator is consistent on the rows, and the
  sorted view is the one list the standard allows.
\<close>

lemma view_page_determined:
  assumes "reachable st" and "mset ys = mset (rows st)"
    and "sorted_wrt (precedes (compare_page tn (sortKey st) (sortDir st))) ys"
    and "\<forall>x\<in>set (rows st).
           filter (equivalent (compare_page tn (sortKey st) (sortDir st)) x) ys
             = filter (equivalent (compare_page tn (sortKey st) (sortDir st)) x) (rows st)"
  shows "ys = view_page tn st"
  unfolding view_page_def sorted_page_def
  using reachable_consistent [OF assms(1)] assms(2,3,4) by (rule array_sort_unique)

lemma reachable_loaded_page: "reachable loaded_page"
proof -
  have "fetchData initial_page
      (Resolved 200 (Inr [game 3 (Number (11 / 20)) Null, game 3 (Number (4 / 5)) Null]))
      = Inr loaded_page"
    by (simp add: fetchData_def fetch_try_def ok_def loaded_page_def initial_page_def)
  with reachable.start show ?thesis by (rule reachable.settle)
qed

text \<open>
  C6. For every list of prediction rows and every row of it whose \<open>net_epa_per_play\<close> is
  \<open>null\<close>: sorted ascending by \<open>net_epa_per_play\<close>, the list holds that row, and each of
  its occurrences stands before every row with a number at that key.
\<close>

theorem null_net_epa_sorts_first:
  "r \<in> set rs \<and> net_epa_per_play r = Null \<longrightarrow>
     (\<exists>i < length (sorted_page tn rs K_net_epa_per_play Asc).
        sorted_page tn rs K_net_epa_per_play Asc ! i = r) \<and>
     (\<forall>i j x. i < length (sorted_page tn rs K_net_epa_per_play Asc) \<and>
        j < length (sorted_page tn rs K_net_epa_per_play Asc) \<and>
        sorted_page tn rs K_net_epa_per_play Asc ! i = r \<and>
        net_epa_per_play (sorted_page tn rs K_net_epa_per_play Asc ! j) = Number x
        \<longrightarrow> i < j)"
proof (intro impI conjI allI)
  assume r: "r \<in> set rs \<and> net_epa_per_play r = Null"
  then have "r \<in> set (sorted_page tn rs K_net_epa_per_play Asc)"
    by (simp add: sorted_page_def set_array_sort)
  then show "\<exists>i < length (sorted_page tn rs K_net_epa_per_play Asc).
      sorted_page tn rs K_net_epa_per_play Asc ! i = r"
    by (simp add: in_set_conv_nth)
next
  fix i j x
  assume r: "r \<in> set rs \<and> net_epa_per_play r = Null"
    and ij: "i < length (sorted_page tn rs K_net_epa_per_play Asc) \<and>
        j < length (sorted_page tn rs K_net_epa_per_play Asc) \<and>
        sorted_page tn rs K_net_epa_per_play Asc ! i = r \<and>
        net_epa_per_play (sorted_page tn rs K_net_epa_per_play Asc ! j) = Number x"
  from r ij have "missing K_net_epa_per_play (sorted_page tn rs K_net_epa_per_play Asc ! i)"
    by (simp add: missing_def)
  moreover from ij have "\<not> missing K_net_epa_per_play (sorted_page tn rs K_net_epa_per_play Asc ! j)"
    by (simp add: missing_def)
  ultimately show "i < j"
    using ij missing_first_asc by blast
qed

theorem null_net_epa_sorts_first_witness:
  "game 7 (Number (3 / 5)) Null \<in> set [game 3 (Number (11 / 20)) (Number 1), game 7 (Number (3 / 5)) Null] \<and>
   net_epa_per_play (game 7 (Number (3 / 5)) Null) = Null \<and>
   sorted_page no_number [game 3 (Number (11 / 20)) (Number 1), game 7 (Number (3 / 5)) Null]
     K_net_epa_per_play Asc ! 0 = game 7 (Number (3 / 5)) Null \<and>
   net_epa_per_play (sorted_page no_number [game 3 (Number (11 / 20)) (Number 1), game 7 (Number (3 / 5)) Null]
     K_net_epa_per_play Asc ! 1) = Number 1 \<and>
   (\<exists>i < length (sorted_page no_number [game 3 (Number (11 / 20)) (Number 1), game 7 (Number (3 / 5)) Null]
        K_net_epa_per_play Asc).
      sorted_page no_number [game 3 (Number (11 / 20)) (Number 1), game 7 (Number (3 / 5)) Null]
        K_net_epa_per_play Asc ! i = game 7 (Number (3 / 5)) Null)"
proof -
  let ?a = "game 7 (Number (3 / 5)) Null"
  let ?rs = "[game 3 (Number (11 / 20)) (Number 1), ?a]"
  have h: "?a \<in> set ?rs \<and> net_epa_per_play ?a = Null" by simp
  with null_net_epa_sorts_first [of ?a ?rs no_number]
  have "\<exists>i < length (sorted_page no_number ?rs K_net_epa_per_play Asc).
      sorted_page no_number ?rs K_net_epa_per_play Asc ! i = ?a"
    by blast
  with h show ?thesis
    using sorted_example_null_asc [of no_number] by simp
qed

section \<open>The tie-breaker\<close>

lemma tie_order:
  assumes "k = K_game_id \<longrightarrow> uniform_ids rs"
    and "i < j" and "j < length (sorted_page tn rs k d)"
    and "tie tn k (sorted_page tn rs k d ! i) (sorted_page tn rs k d ! j)"
  shows "nullish_or (pick_prob (sorted_page tn rs k d ! j)) 0
           \<le> nullish_or (pick_prob (sorted_page tn rs k d ! i)) 0"
  using sorted_page_nth [OF assms(1,2,3)] precedes_tie [OF assms(4), of d] by simp

lemma tie_order_view:
  assumes "reachable st" and "i < j" and "j < length (view_page tn st)"
    and "tie tn (sortKey st) (view_page tn st ! i) (view_page tn st ! j)"
  shows "nullish_or (pick_prob (view_page tn st ! j)) 0
           \<le> nullish_or (pick_prob (view_page tn st ! i)) 0"
proof -
  have "sortKey st = K_game_id \<longrightarrow> uniform_ids (rows st)"
    using reachable_header_key [OF assms(1)] header_keys_not_game_id by blast
  then show ?thesis
    using assms(2,3,4) unfolding view_page_def by (rule tie_order)
qed

lemma view_loaded_page:
  "view_page tn (loaded_page\<lparr>sortKey := K_pred_margin, sortDir := d\<rparr>)
     = [game 3 (Number (4 / 5)) Null, game 3 (Number (11 / 20)) Null]"
  by (simp add: view_page_def loaded_page_def sorted_page_def compare_page_def sort_value_def)

lemma toggled_loaded_page:
  "toggleSort K_pred_margin loaded_page = loaded_page\<lparr>sortKey := K_pred_margin, sortDir := Desc\<rparr>"
  "toggleSort K_pred_margin (loaded_page\<lparr>sortKey := K_pred_margin, sortDir := Desc\<rparr>)
     = loaded_page\<lparr>sortKey := K_pred_margin, sortDir := Asc\<rparr>"
  by (simp_all add: toggleSort_def loaded_page_def initial_page_def)

lemma reachable_toggled:
  "reachable (toggleSort K_pred_margin loaded_page)"
  "reachable (toggleSort K_pred_margin (toggleSort K_pred_margin loaded_page))"
  by (simp_all add: reachable.click reachable_loaded_page header_keys_def)

lemma compare_tie_dir: "tie tn k a b \<Longrightarrow> compare_page tn k Asc a b = compare_page tn k Desc a b"
  by (simp add: tie_def compare_page_def Let_def)

lemma compare_part000_eq: "compare_part000 = compare_page"
  by (intro ext) (simp add: compare_part000_def compare_page_def sort_value_def Let_def)

lemma sorted_part000_eq: "sorted_part000 = sorted_page"
  by (intro ext) (simp add: sorted_part000_def sorted_page_def compare_part000_eq)

lemma history_prop_irrefl: "\<not> js_lt tn (history_prop hk a) (history_prop hk a)"
  by (cases hk) simp_all

lemma history_stable:
  "filter (\<lambda>r. history_prop hk r = v) (sorted_history tn hs hk hdir)
     = filter (\<lambda>r. history_prop hk r = v) hs"
  unfolding sorted_history_def
proof (rule filter_array_sort, intro ballI impI)
  fix x y
  assume "history_prop hk x = v" "history_prop hk y = v"
  then show "precedes (compare_history tn hk hdir) x y"
    using history_prop_irrefl [of tn hk y]
    by (simp add: precedes_def compare_history_def Let_def)
qed

lemma snapshot_simps [simp]:
  "id_row (snapshot i p) = i" "HistoryRow.pick_prob (snapshot i p) = p"
  "HistoryRow.pred_margin (snapshot i p) = 3"
  by (simp_all add: snapshot_def)

lemma snapshot_eq_iff [simp]: "snapshot i p = snapshot i' p' \<longleftrightarrow> i = i' \<and> p = p'"
  by (auto simp: snapshot_def)

lemma sorted_example_tie:
  "sorted_page tn [game 3 (Number (11 / 20)) e, game 3 (Number (4 / 5)) e'] K_pred_margin d
     = [game 3 (Number (4 / 5)) e', game 3 (Number (11 / 20)) e]"
  by (simp add: sorted_page_def compare_page_def sort_value_def)

text \<open>
  The history page, at two snapshots with the same predicted margin, sorted by the margin
  descending: the snapshot with the lower pick probability stays first.
\<close>

theorem history_sort_ignores_pick_prob:
  "sorted_history no_number [snapshot 1 (11 / 20), snapshot 2 (4 / 5)] H_pred_margin Desc
     = [snapshot 1 (11 / 20), snapshot 2 (4 / 5)] \<and>
   history_prop H_pred_margin (snapshot 1 (11 / 20)) = history_prop H_pred_margin (snapshot 2 (4 / 5)) \<and>
   HistoryRow.pick_prob (snapshot 1 (11 / 20)) < HistoryRow.pick_prob (snapshot 2 (4 / 5))"
  by (simp add: sorted_history_def compare_history_def)

text \<open>
  C2, as the code has it. On the predictions page, in every state the page can reach,
  two rows of the sorted view that compare equal at the sort key stand in descending
  order of pick probability, under either direction; an absent pick probability counts
  as zero there, and as \<open>-Infinity\<close> where \<open>pick_prob\<close> is itself the sort key. The same
  holds of \<open>sorted\<close> for every list, direction and key of \<open>GameView\<close>, the ids being all
  strings or all numbers if the key is \<open>game_id\<close> (a key no header selects). The history
  page has no second key: rows equal at the sort key keep the order of the fetched list.
\<close>

theorem tie_break_by_pick_prob:
  "(reachable st \<and> i < j \<and> j < length (view_page tn st) \<and>
      tie tn (sortKey st) (view_page tn st ! i) (view_page tn st ! j)
    \<longrightarrow> nullish_or (pick_prob (view_page tn st ! j)) 0
          \<le> nullish_or (pick_prob (view_page tn st ! i)) 0) \<and>
   ((k = K_game_id \<longrightarrow> uniform_ids rs) \<and> i < j \<and> j < length (sorted_page tn rs k d) \<and>
      tie tn k (sorted_page tn rs k d ! i) (sorted_page tn rs k d ! j)
    \<longrightarrow> nullish_or (pick_prob (sorted_page tn rs k d ! j)) 0
          \<le> nullish_or (pick_prob (sorted_page tn rs k d ! i)) 0) \<and>
   (missing K_pick_prob a \<longrightarrow>
      nullish_or (pick_prob a) 0 = 0 \<and> sort_value K_pick_prob a = VNumber NegInf) \<and>
   filter (\<lambda>r. history_prop hk r = v) (sorted_history tn hs hk hdir)
     = filter (\<lambda>r. history_prop hk r = v) hs"
proof (intro conjI impI)
  assume "reachable st \<and> i < j \<and> j < length (view_page tn st) \<and>
      tie tn (sortKey st) (view_page tn st ! i) (view_page tn st ! j)"
  then show "nullish_or (pick_prob (view_page tn st ! j)) 0
          \<le> nullish_or (pick_prob (view_page tn st ! i)) 0"
    using tie_order_view by blast
next
  assume "(k = K_game_id \<longrightarrow> uniform_ids rs) \<and> i < j \<and> j < length (sorted_page tn rs k d) \<and>
      tie tn k (sorted_page tn rs k d ! i) (sorted_page tn rs k d ! j)"
  then show "nullish_or (pick_prob (sorted_page tn rs k d ! j)) 0
          \<le> nullish_or (pick_prob (sorted_page tn rs k d ! i)) 0"
    using tie_order by blast
next
  assume "missing K_pick_prob a"
  then show "nullish_or (pick_prob a) 0 = 0"
    by (cases "pick_prob a") (simp_all add: missing_def)
next
  assume "missing K_pick_prob a"
  then show "sort_value K_pick_prob a = VNumber NegInf"
    by (rule missing_sort_value)
next
  show "filter (\<lambda>r. history_prop hk r = v) (sorted_history tn hs hk hdir)
     = filter (\<lambda>r. history_prop hk r = v) hs"
    by (rule history_stable)
qed

theorem tie_break_by_pick_prob_witness:
  "reachable (toggleSort K_pred_margin loaded_page) \<and>
   view_page no_number (toggleSort K_pred_margin loaded_page)
     = [game 3 (Number (4 / 5)) Null, game 3 (Number (11 / 20)) Null] \<and>
   tie no_number K_pred_margin (game 3 (Number (4 / 5)) Null) (game 3 (Number (11 / 20)) Null) \<and>
   nullish_or (pick_prob (game 3 (Number (11 / 20)) Null)) 0
     \<le> nullish_or (pick_prob (game 3 (Number (4 / 5)) Null)) 0 \<and>
   missing K_pick_prob (game 3 Undefined Null) \<and>
   nullish_or (pick_prob (game 3 Undefined Null)) 0 = 0 \<and>
   sort_value K_pick_prob (game 3 Undefined Null) = VNumber NegInf \<and>
   filter (\<lambda>r. history_prop H_pred_margin r = VNumber (Fin 3))
     (sorted_history no_number [snapshot 1 (11 / 20), snapshot 2 (4 / 5)] H_pred_margin Desc)
     = [snapshot 1 (11 / 20), snapshot 2 (4 / 5)]"
proof -
  let ?st = "toggleSort K_pred_margin loaded_page"
  let ?hs = "[snapshot 1 (11 / 20), snapshot 2 (4 / 5)]"
  note inst = tie_break_by_pick_prob [of ?st 0 1 no_number K_pred_margin "rows ?st" Desc
      "game 3 Undefined Null" H_pred_margin "VNumber (Fin 3)" ?hs Desc]
  have r: "reachable ?st" by (rule reachable_toggled)
  have s: "view_page no_number ?st = [game 3 (Number (4 / 5)) Null, game 3 (Number (11 / 20)) Null]"
    by (simp add: toggled_loaded_page view_loaded_page)
  have k: "sortKey ?st = K_pred_margin" by (simp add: toggled_loaded_page)
  have t: "tie no_number K_pred_margin (game 3 (Number (4 / 5)) Null) (game 3 (Number (11 / 20)) Null)"
    by (simp add: tie_def sort_value_def)
  have m: "missing K_pick_prob (game 3 Undefined Null)"
    by (simp add: missing_def)
  have "nullish_or (pick_prob (game 3 (Number (11 / 20)) Null)) 0
     \<le> nullish_or (pick_prob (game 3 (Number (4 / 5)) Null)) 0"
    using inst r s k t by simp
  moreover have "nullish_or (pick_prob (game 3 Undefined Null)) 0 = 0 \<and>
      sort_value K_pick_prob (game 3 Undefined Null) = VNumber NegInf"
    using inst m by blast
  moreover have "filter (\<lambda>r. history_prop H_pred_margin r = VNumber (Fin 3))
     (sorted_history no_number ?hs H_pred_margin Desc) = ?hs"
    using inst by (simp add: snapshot_def)
  ultimately show ?thesis using r s t m by simp
qed

section \<open>Permutation\<close>

text \<open>
  C3. For every row list, sort key and direction, the sorted list of each page (the
  predictions page, its copy in unnamed/part_000 and the history page) has the same
  multiset of rows as the input: no row is duplicated or lost.
\<close>

theorem sorted_is_permutation:
  "mset (sorted_page tn rs k d) = mset rs \<and>
   mset (sorted_part000 tn rs k d) = mset rs \<and>
   mset (sorted_history tn hs hk hdir) = mset hs"
  by (simp add: sorted_page_def sorted_part000_def sorted_history_def mset_array_sort)

section \<open>The scenario of three rows\<close>

text \<open>
  C5. Three prediction rows with \<open>pred_margin\<close> and \<open>pick_prob\<close> equal to 3 and 0.55, 3 and
  0.80, 7 and 0.60 (whatever their other fields), sorted by \<open>pred_margin\<close> descending on
  the predictions page, come out as: the margin-7 row, the margin-3 row with 0.80, the
  margin-3 row with 0.55.
\<close>

theorem three_rows_by_margin_desc:
  "sorted_page tn
     [a\<lparr>pred_margin := 3, pick_prob := Number 0.55\<rparr>,
      b\<lparr>pred_margin := 3, pick_prob := Number 0.80\<rparr>,
      c\<lparr>pred_margin := 7, pick_prob := Number 0.60\<rparr>]
     K_pred_margin Desc
   = [c\<lparr>pred_margin := 7, pick_prob := Number 0.60\<rparr>,
      b\<lparr>pred_margin := 3, pick_prob := Number 0.80\<rparr>,
      a\<lparr>pred_margin := 3, pick_prob := Number 0.55\<rparr>]"
  by (simp add: sorted_page_def compare_page_def sort_value_def)

section \<open>The tie-breaker under both directions\<close>

lemma sorted_example_not_reversed:
  "sorted_page tn [game 3 (Number (11 / 20)) Null, game 3 (Number (4 / 5)) Null] K_pred_margin Desc
     \<noteq> rev (sorted_page tn [game 3 (Number (11 / 20)) Null, game 3 (Number (4 / 5)) Null] K_pred_margin Asc)"
  by (simp add: sorted_example_tie)

text \<open>
  C10. On the predictions page (and its copy in unnamed/part_000, whose sorted list is
  the same) the last line of the comparator does not look at the direction: for two
  rows that compare equal at the sort key it returns the same number under both
  directions. So in every state the page can reach, whatever its rows, key and
  direction, two such rows of the sorted view stand in descending order of pick
  probability; and the list sorted descending is not always the reverse of the list
  sorted ascending. The order holds of \<open>sorted\<close> for every list and key of \<open>GameView\<close>
  under both directions, the ids being all strings or all numbers if the key is
  \<open>game_id\<close> (a key no header selects).
\<close>

theorem tie_break_same_in_both_directions:
  "(tie tn k a b \<longrightarrow> compare_page tn k Asc a b = compare_page tn k Desc a b) \<and>
   (reachable st \<and> i < j \<and> j < length (view_page tn st) \<and>
      tie tn (sortKey st) (view_page tn st ! i) (view_page tn st ! j)
    \<longrightarrow> nullish_or (pick_prob (view_page tn st ! j)) 0
          \<le> nullish_or (pick_prob (view_page tn st ! i)) 0) \<and>
   ((k = K_game_id \<longrightarrow> uniform_ids rs) \<and> i < j \<and> j < length (sorted_page tn rs k Asc) \<and>
      tie tn k (sorted_page tn rs k Asc ! i) (sorted_page tn rs k Asc ! j)
    \<longrightarrow> nullish_or (pick_prob (sorted_page tn rs k Asc ! j)) 0
          \<le> nullish_or (pick_prob (sorted_page tn rs k Asc ! i)) 0) \<and>
   ((k = K_game_id \<longrightarrow> uniform_ids rs) \<and> i < j \<and> j < length (sorted_page tn rs k Desc) \<and>
      tie tn k (sorted_page tn rs k Desc ! i) (sorted_page tn rs k Desc ! j)
    \<longrightarrow> nullish_or (pick_prob (sorted_page tn rs k Desc ! j)) 0
          \<le> nullish_or (pick_prob (sorted_page tn rs k Desc ! i)) 0) \<and>
   sorted_part000 tn rs k d = sorted_page tn rs k d \<and>
   sorted_page tn [game 3 (Number 0.55) Null, game 3 (Number 0.80) Null] K_pred_margin Desc
     \<noteq> rev (sorted_page tn [game 3 (Number 0.55) Null, game 3 (Number 0.80) Null] K_pred_margin Asc)"
proof (intro conjI impI)
  assume "tie tn k a b"
  then show "compare_page tn k Asc a b = compare_page tn k Desc a b"
    by (rule compare_tie_dir)
next
  assume "reachable st \<and> i < j \<and> j < length (view_page tn st) \<and>
      tie tn (sortKey st) (view_page tn st ! i) (view_page tn st ! j)"
  then show "nullish_or (pick_prob (view_page tn st ! j)) 0
          \<le> nullish_or (pick_prob (view_page tn st ! i)) 0"
    using tie_order_view by blast
next
  assume "(k = K_game_id \<longrightarrow> uniform_ids rs) \<and> i < j \<and> j < length (sorted_page tn rs k Asc) \<and>
      tie tn k (sorted_page tn rs k Asc ! i) (sorted_page tn rs k Asc ! j)"
  then show "nullish_or (pick_prob (sorted_page tn rs k Asc ! j)) 0
          \<le> nullish_or (pick_prob (sorted_page tn rs k Asc ! i)) 0"
    using tie_order by blast
next
  assume "(k = K_game_id \<longrightarrow> uniform_ids rs) \<and> i < j \<and> j < length (sorted_page tn rs k Desc) \<and>
      tie tn k (sorted_page tn rs k Desc ! i) (sorted_page tn rs k Desc ! j)"
  then show "nullish_or (pick_prob (sorted_page tn rs k Desc ! j)) 0
          \<le> nullish_or (pick_prob (sorted_page tn rs k Desc ! i)) 0"
    using tie_order by blast
next
  show "sorted_part000 tn rs k d = sorted_page tn rs k d"
    by (simp add: sorted_part000_eq)
next
  show "sorted_page tn [game 3 (Number 0.55) Null, game 3 (Number 0.80) Null] K_pred_margin Desc
     \<noteq> rev (sorted_page tn [game 3 (Number 0.55) Null, game 3 (Number 0.80) Null] K_pred_margin Asc)"
    using sorted_example_not_reversed [of tn] by simp
qed

theorem tie_break_same_in_both_directions_witness:
  "tie no_number K_pred_margin (game 3 (Number (4 / 5)) Null) (game 3 (Number (11 / 20)) Null) \<and>
   compare_page no_number K_pred_margin Asc (game 3 (Number (4 / 5)) Null) (game 3 (Number (11 / 20)) Null)
     = compare_page no_number K_pred_margin Desc (game 3 (Number (4 / 5)) Null) (game 3 (Number (11 / 20)) Null) \<and>
   reachable (toggleSort K_pred_margin loaded_page) \<and>
   sortDir (toggleSort K_pred_margin loaded_page) = Desc \<and>
   view_page no_number (toggleSort K_pred_margin loaded_page)
     = [game 3 (Number (4 / 5)) Null, game 3 (Number (11 / 20)) Null] \<and>
   reachable (toggleSort K_pred_margin (toggleSort K_pred_margin loaded_page)) \<and>
   sortDir (toggleSort K_pred_margin (toggleSort K_pred_margin loaded_page)) = Asc \<and>
   view_page no_number (toggleSort K_pred_margin (toggleSort K_pred_margin loaded_page))
     = [game 3 (Number (4 / 5)) Null, game 3 (Number (11 / 20)) Null] \<and>
   nullish_or (pick_prob (game 3 (Number (11 / 20)) Null)) 0
     \<le> nullish_or (pick_prob (game 3 (Number (4 / 5)) Null)) 0"
proof -
  let ?lo = "game 3 (Number (11 / 20)) Null"
  let ?hi = "game 3 (Number (4 / 5)) Null"
  let ?st = "toggleSort K_pred_margin (toggleSort K_pred_margin loaded_page)"
  note inst = tie_break_same_in_both_directions
      [of no_number K_pred_margin ?hi ?lo ?st 0 1 "[?lo, ?hi]" Desc]
  have t: "tie no_number K_pred_margin ?hi ?lo"
    by (simp add: tie_def sort_value_def)
  have r: "reachable ?st" "reachable (toggleSort K_pred_margin loaded_page)"
    by (rule reachable_toggled)+
  have v: "view_page no_number ?st = [?hi, ?lo]"
    "view_page no_number (toggleSort K_pred_margin loaded_page) = [?hi, ?lo]"
    by (simp_all add: toggled_loaded_page view_loaded_page)
  have k: "sortKey ?st = K_pred_margin" "sortDir ?st = Asc"
    "sortDir (toggleSort K_pred_margin loaded_page) = Desc"
    by (simp_all add: toggled_loaded_page)
  have "compare_page no_number K_pred_margin Asc ?hi ?lo = compare_page no_number K_pred_margin Desc ?hi ?lo"
    using inst t by blast
  moreover have "nullish_or (pick_prob ?lo) 0 \<le> nullish_or (pick_prob ?hi) 0"
    using inst r(1) v(1) k(1) t by simp
  ultimately show ?thesis using t r v k by simp
qed

section \<open>What the sort writes\<close>

lemma spread_sort_in_place:
  assumes "src < next_arr h"
  shows "fst (spread src h) \<noteq> src"
    and "arrs (sort_in_place f (fst (spread src h)) (snd (spread src h))) src = arrs h src"
    and "objs (sort_in_place f (fst (spread src h)) (snd (spread src h))) = objs h"
    and "rows_of (sort_in_place f (fst (spread src h)) (snd (spread src h))) (fst (spread src h))
           = array_sort f (rows_of h src)"
    and "rows_of (sort_in_place f (fst (spread src h)) (snd (spread src h))) src = rows_of h src"
    and "next_arr (sort_in_place f (fst (spread src h)) (snd (spread src h))) = Suc (next_arr h)"
    and "r \<noteq> fst (spread src h) \<Longrightarrow>
           arrs (sort_in_place f (fst (spread src h)) (snd (spread src h))) r = arrs h r"
  using assms
  by (simp_all add: spread_def sort_in_place_def rows_of_def Let_def map_array_sort)

lemma sorted_page_store_eq:
  "sorted_page_store tn src k d h
     = (fst (spread src h), sort_in_place (compare_page tn k d) (fst (spread src h)) (snd (spread src h)))"
  by (simp add: sorted_page_store_def split_beta)

lemma sorted_history_store_eq:
  "sorted_history_store tn src k d h
     = (fst (spread src h), sort_in_place (compare_history tn k d) (fst (spread src h)) (snd (spread src h)))"
  by (simp add: sorted_history_store_def split_beta)

lemma sorted_page_store_frame:
  assumes "src < next_arr h"
  shows "fst (sorted_page_store tn src k d h) \<noteq> src"
    and "arrs (snd (sorted_page_store tn src k d h)) src = arrs h src"
    and "objs (snd (sorted_page_store tn src k d h)) = objs h"
    and "rows_of (snd (sorted_page_store tn src k d h)) (fst (sorted_page_store tn src k d h))
           = sorted_page tn (rows_of h src) k d"
    and "rows_of (snd (sorted_page_store tn src k d h)) src = rows_of h src"
    and "src < next_arr (snd (sorted_page_store tn src k d h))"
    and "r \<noteq> fst (sorted_page_store tn src k d h) \<Longrightarrow>
           arrs (snd (sorted_page_store tn src k d h)) r = arrs h r"
  using spread_sort_in_place [OF assms] assms
  by (simp_all add: sorted_page_store_eq sorted_page_def)

lemma sorted_history_store_frame:
  assumes "src < next_arr h"
  shows "fst (sorted_history_store tn src k d h) \<noteq> src"
    and "arrs (snd (sorted_history_store tn src k d h)) src = arrs h src"
    and "objs (snd (sorted_history_store tn src k d h)) = objs h"
    and "rows_of (snd (sorted_history_store tn src k d h)) (fst (sorted_history_store tn src k d h))
           = sorted_history tn (rows_of h src) k d"
    and "rows_of (snd (sorted_history_store tn src k d h)) src = rows_of h src"
    and "src < next_arr (snd (sorted_history_store tn src k d h))"
    and "r \<noteq> fst (sorted_history_store tn src k d h) \<Longrightarrow>
           arrs (snd (sorted_history_store tn src k d h)) r = arrs h r"
  using spread_sort_in_place [OF assms] assms
  by (simp_all add: sorted_history_store_eq sorted_history_def)

text \<open>
  C4. On both pages \<open>sorted\<close> sorts a new array and writes nothing else: the array of
  fetched rows, like every array but the new one, holds the same references in the same
  order afterwards, no row object has changed, the result is another array, and its
  rows are the sorted rows; so sorting again by another key and direction, with no
  fetch in between, gives the fetched rows sorted by that key.
\<close>

theorem sorted_does_not_mutate_rows:
  "(src < next_arr h \<longrightarrow>
      fst (sorted_page_store tn src k d h) \<noteq> src \<and>
      arrs (snd (sorted_page_store tn src k d h)) src = arrs h src \<and>
      (\<forall>r. r \<noteq> fst (sorted_page_store tn src k d h) \<longrightarrow>
           arrs (snd (sorted_page_store tn src k d h)) r = arrs h r) \<and>
      objs (snd (sorted_page_store tn src k d h)) = objs h \<and>
      rows_of (snd (sorted_page_store tn src k d h)) src = rows_of h src \<and>
      rows_of (snd (sorted_page_store tn src k d h)) (fst (sorted_page_store tn src k d h))
        = sorted_page tn (rows_of h src) k d \<and>
      rows_of (snd (sorted_page_store tn src k' d' (snd (sorted_page_store tn src k d h))))
              (fst (sorted_page_store tn src k' d' (snd (sorted_page_store tn src k d h))))
        = sorted_page tn (rows_of h src) k' d') \<and>
   (hsrc < next_arr hh \<longrightarrow>
      fst (sorted_history_store tn hsrc hk hdir hh) \<noteq> hsrc \<and>
      arrs (snd (sorted_history_store tn hsrc hk hdir hh)) hsrc = arrs hh hsrc \<and>
      (\<forall>r. r \<noteq> fst (sorted_history_store tn hsrc hk hdir hh) \<longrightarrow>
           arrs (snd (sorted_history_store tn hsrc hk hdir hh)) r = arrs hh r) \<and>
      objs (snd (sorted_history_store tn hsrc hk hdir hh)) = objs hh \<and>
      rows_of (snd (sorted_history_store tn hsrc hk hdir hh)) hsrc = rows_of hh hsrc \<and>
      rows_of (snd (sorted_history_store tn hsrc hk hdir hh)) (fst (sorted_history_store tn hsrc hk hdir hh))
        = sorted_history tn (rows_of hh hsrc) hk hdir \<and>
      rows_of (snd (sorted_history_store tn hsrc hk' hdir' (snd (sorted_history_store tn hsrc hk hdir hh))))
              (fst (sorted_history_store tn hsrc hk' hdir' (snd (sorted_history_store tn hsrc hk hdir hh))))
        = sorted_history tn (rows_of hh hsrc) hk' hdir')"
proof (intro conjI impI allI)
  assume a: "src < next_arr h"
  note f = sorted_page_store_frame [OF a, where tn = tn and k = k and d = d]
  show "arrs (snd (sorted_page_store tn src k d h)) r = arrs h r"
    if "r \<noteq> fst (sorted_page_store tn src k d h)" for r
    using that by (rule sorted_page_store_frame(7) [OF a])
  show "fst (sorted_page_store tn src k d h) \<noteq> src" by (rule f(1))
  show "arrs (snd (sorted_page_store tn src k d h)) src = arrs h src" by (rule f(2))
  show "objs (snd (sorted_page_store tn src k d h)) = objs h" by (rule f(3))
  show "rows_of (snd (sorted_page_store tn src k d h)) src = rows_of h src" by (rule f(5))
  show "rows_of (snd (sorted_page_store tn src k d h)) (fst (sorted_page_store tn src k d h))
        = sorted_page tn (rows_of h src) k d" by (rule f(4))
  show "rows_of (snd (sorted_page_store tn src k' d' (snd (sorted_page_store tn src k d h))))
              (fst (sorted_page_store tn src k' d' (snd (sorted_page_store tn src k d h))))
        = sorted_page tn (rows_of h src) k' d'"
    using sorted_page_store_frame(4) [OF f(6)] f(5) by simp
next
  assume a: "hsrc < next_arr hh"
  note f = sorted_history_store_frame [OF a, where tn = tn and k = hk and d = hdir]
  show "arrs (snd (sorted_history_store tn hsrc hk hdir hh)) r = arrs hh r"
    if "r \<noteq> fst (sorted_history_store tn hsrc hk hdir hh)" for r
    using that by (rule sorted_history_store_frame(7) [OF a])
  show "fst (sorted_history_store tn hsrc hk hdir hh) \<noteq> hsrc" by (rule f(1))
  show "arrs (snd (sorted_history_store tn hsrc hk hdir hh)) hsrc = arrs hh hsrc" by (rule f(2))
  show "objs (snd (sorted_history_store tn hsrc hk hdir hh)) = objs hh" by (rule f(3))
  show "rows_of (snd (sorted_history_store tn hsrc hk hdir hh)) hsrc = rows_of hh hsrc" by (rule f(5))
  show "rows_of (snd (sorted_history_store tn hsrc hk hdir hh)) (fst (sorted_history_store tn hsrc hk hdir hh))
        = sorted_history tn (rows_of hh hsrc) hk hdir" by (rule f(4))
  show "rows_of (snd (sorted_history_store tn hsrc hk' hdir' (snd (sorted_history_store tn hsrc hk hdir hh))))
              (fst (sorted_history_store tn hsrc hk' hdir' (snd (sorted_history_store tn hsrc hk hdir hh))))
        = sorted_history tn (rows_of hh hsrc) hk' hdir'"
    using sorted_history_store_frame(4) [OF f(6)] f(5) by simp
qed

theorem sorted_does_not_mutate_rows_witness:
  "0 < next_arr sample_store \<and>
   rows_of sample_store 0 = [game 3 (Number (11 / 20)) Null, game 7 (Number (3 / 5)) Null] \<and>
   fst (sorted_page_store no_number 0 K_pred_margin Desc sample_store) = 1 \<and>
   arrs (snd (sorted_page_store no_number 0 K_pred_margin Desc sample_store)) 1 = [1, 0] \<and>
   arrs (snd (sorted_page_store no_number 0 K_pred_margin Desc sample_store)) 0 = [0, 1] \<and>
   objs (snd (sorted_page_store no_number 0 K_pred_margin Desc sample_store)) = objs sample_store \<and>
   rows_of (snd (sorted_page_store no_number 0 K_pred_margin Desc sample_store)) 1
     = [game 7 (Number (3 / 5)) Null, game 3 (Number (11 / 20)) Null] \<and>
   0 < next_arr sample_history_store \<and>
   fst (sorted_history_store no_number 0 H_pick_prob Desc sample_history_store) = 1 \<and>
   arrs (snd (sorted_history_store no_number 0 H_pick_prob Desc sample_history_store)) 1 = [1, 0] \<and>
   arrs (snd (sorted_history_store no_number 0 H_pick_prob Desc sample_history_store)) 0 = [0, 1] \<and>
   objs (snd (sorted_history_store no_number 0 H_pick_prob Desc sample_history_store))
     = objs sample_history_store"
proof -
  have p: "0 < next_arr sample_store" and q: "0 < next_arr sample_history_store"
    by (simp_all add: sample_store_def sample_history_store_def)
  note inst = sorted_does_not_mutate_rows
    [of 0 sample_store no_number K_pred_margin Desc K_pred_margin Asc
        0 sample_history_store H_pick_prob Desc H_pick_prob Asc]
  have a: "arrs (snd (sorted_page_store no_number 0 K_pred_margin Desc sample_store)) 0 = [0, 1]"
    and b: "objs (snd (sorted_page_store no_number 0 K_pred_margin Desc sample_store)) = objs sample_store"
    and c: "arrs (snd (sorted_history_store no_number 0 H_pick_prob Desc sample_history_store)) 0 = [0, 1]"
    and d: "objs (snd (sorted_history_store no_number 0 H_pick_prob Desc sample_history_store))
              = objs sample_history_store"
    using inst p q by (simp_all add: sample_store_def sample_history_store_def)
  have e: "fst (sorted_page_store no_number 0 K_pred_margin Desc sample_store) = 1"
    and f: "fst (sorted_history_store no_number 0 H_pick_prob Desc sample_history_store) = 1"
    by (simp_all add: sorted_page_store_def sorted_history_store_def spread_def
        sample_store_def sample_history_store_def)
  have g: "arrs (snd (sorted_page_store no_number 0 K_pred_margin Desc sample_store)) 1 = [1, 0]"
    by (simp add: sorted_page_store_def spread_def sort_in_place_def sample_store_def
        compare_page_def sort_value_def)
  have h: "arrs (snd (sorted_history_store no_number 0 H_pick_prob Desc sample_history_store)) 1 = [1, 0]"
    by (simp add: sorted_history_store_def spread_def sort_in_place_def sample_history_store_def
        compare_history_def)
  have i: "rows_of sample_store 0 = [game 3 (Number (11 / 20)) Null, game 7 (Number (3 / 5)) Null]"
    by (simp add: rows_of_def sample_store_def)
  have j: "rows_of (snd (sorted_page_store no_number 0 K_pred_margin Desc sample_store)) 1
     = [game 7 (Number (3 / 5)) Null, game 3 (Number (11 / 20)) Null]"
    using g b by (simp add: rows_of_def sample_store_def)
  from p q a b c d e f g h i j show ?thesis by simp
qed

section \<open>toggleSort\<close>

lemma toggleSort_twice: "sortKey st = key \<Longrightarrow> toggleSort key (toggleSort key st) = st"
  by (cases st; cases "sortDir st") (simp_all add: toggleSort_def)

text \<open>
  C8. On both pages: toggling the active key flips the direction and keeps the key;
  toggling any other key makes it the key, with direction descending; and toggling the
  active key twice gives back the state, hence the direction and the sorted view.
\<close>

theorem toggleSort_flips_or_resets:
  "(sortKey st = key \<longrightarrow>
      sortKey (toggleSort key st) = key \<and>
      sortDir (toggleSort key st) = (if sortDir st = Asc then Desc else Asc) \<and>
      rows (toggleSort key st) = rows st) \<and>
   (sortKey st \<noteq> key \<longrightarrow>
      sortKey (toggleSort key st) = key \<and> sortDir (toggleSort key st) = Desc \<and>
      rows (toggleSort key st) = rows st) \<and>
   (sortKey st = key \<longrightarrow> toggleSort key (toggleSort key st) = st) \<and>
   (sortKey sp = pk \<longrightarrow>
      sortDir (toggleSort pk (toggleSort pk sp)) = sortDir sp \<and>
      view_page tn (toggleSort pk (toggleSort pk sp)) = view_page tn sp) \<and>
   (sortKey sh = hk \<longrightarrow>
      sortDir (toggleSort hk (toggleSort hk sh)) = sortDir sh \<and>
      view_history tn (toggleSort hk (toggleSort hk sh)) = view_history tn sh)"
proof (intro conjI impI)
  assume "sortKey st = key"
  then show "sortKey (toggleSort key st) = key"
    and "sortDir (toggleSort key st) = (if sortDir st = Asc then Desc else Asc)"
    and "rows (toggleSort key st) = rows st"
    and "toggleSort key (toggleSort key st) = st"
    by (simp_all add: toggleSort_twice) (simp_all add: toggleSort_def)
next
  assume "sortKey st \<noteq> key"
  then show "sortKey (toggleSort key st) = key" and "sortDir (toggleSort key st) = Desc"
    and "rows (toggleSort key st) = rows st"
    by (simp_all add: toggleSort_def)
next
  assume "sortKey sp = pk"
  then show "sortDir (toggleSort pk (toggleSort pk sp)) = sortDir sp"
    and "view_page tn (toggleSort pk (toggleSort pk sp)) = view_page tn sp"
    by (simp_all add: toggleSort_twice)
next
  assume "sortKey sh = hk"
  then show "sortDir (toggleSort hk (toggleSort hk sh)) = sortDir sh"
    and "view_history tn (toggleSort hk (toggleSort hk sh)) = view_history tn sh"
    by (simp_all add: toggleSort_twice)
qed

theorem toggleSort_flips_or_resets_witness:
  "sortKey initial_page = K_pick_prob \<and>
   sortDir (toggleSort K_pick_prob initial_page) = Asc \<and>
   sortKey (toggleSort K_pred_margin initial_page) = K_pred_margin \<and>
   sortDir (toggleSort K_pred_margin (toggleSort K_pick_prob initial_page)) = Desc \<and>
   toggleSort K_pick_prob (toggleSort K_pick_prob initial_page) = initial_page \<and>
   view_page no_number (toggleSort K_pick_prob (toggleSort K_pick_prob initial_page))
     = view_page no_number initial_page \<and>
   view_history no_number (toggleSort H_created_at (toggleSort H_created_at initial_history))
     = view_history no_number initial_history"
proof -
  have k: "sortKey initial_page = K_pick_prob" and d: "sortDir initial_page = Desc"
    and hk: "sortKey initial_history = H_created_at"
    by (simp_all add: initial_page_def initial_history_def)
  note a = toggleSort_flips_or_resets
    [of initial_page K_pick_prob initial_page K_pick_prob no_number initial_history H_created_at]
  note b = toggleSort_flips_or_resets
    [of "toggleSort K_pick_prob initial_page" K_pred_margin initial_page K_pick_prob no_number
        initial_history H_created_at]
  note c = toggleSort_flips_or_resets
    [of initial_page K_pred_margin initial_page K_pick_prob no_number initial_history H_created_at]
  have "sortDir (toggleSort K_pick_prob initial_page) = Asc"
    and "toggleSort K_pick_prob (toggleSort K_pick_prob initial_page) = initial_page"
    and "view_page no_number (toggleSort K_pick_prob (toggleSort K_pick_prob initial_page))
     = view_page no_number initial_page"
    and "view_history no_number (toggleSort H_created_at (toggleSort H_created_at initial_history))
     = view_history no_number initial_history"
    using a k d hk by simp_all
  moreover have "sortKey (toggleSort K_pick_prob initial_page) \<noteq> K_pred_margin"
    using a k by simp
  with b have "sortDir (toggleSort K_pred_margin (toggleSort K_pick_prob initial_page)) = Desc"
    by blast
  moreover have "sortKey (toggleSort K_pred_margin initial_page) = K_pred_margin"
    using c k by simp
  ultimately show ?thesis using k by simp
qed

section \<open>fetchData\<close>

lemma decimal_digit: "n < 10 \<Longrightarrow> decimal n = [48 + n]"
  by (simp add: decimal.simps)

lemma decimal_step: "10 \<le> n \<Longrightarrow> decimal n = decimal (n div 10) @ [48 + n mod 10]"
  by (subst decimal.simps) simp

lemma decimal_three_digits:
  assumes "100 \<le> n" and "n < 1000"
  shows "decimal n = [48 + n div 100, 48 + n div 10 mod 10, 48 + n mod 10]"
proof -
  have "n div 10 div 10 < 10" and "10 \<le> n div 10" and "10 \<le> n"
    using assms by simp_all
  then show ?thesis
    by (simp add: decimal_step decimal_digit div_mult2_eq)
qed

text \<open>\<open>decimal\<close> gives digits, and they denote the number.\<close>

lemma decimal_digits: "c \<in> set (decimal n) \<Longrightarrow> 48 \<le> c \<and> c \<le> 57"
proof (induction n rule: decimal.induct)
  case (1 n)
  show ?case
  proof (cases "n < 10")
    case True
    with "1.prems" show ?thesis by (simp add: decimal_digit)
  next
    case False
    then have "decimal n = decimal (n div 10) @ [48 + n mod 10]" by (simp add: decimal_step)
    with "1.prems" have "c \<in> set (decimal (n div 10)) \<or> c = 48 + n mod 10" by auto
    then show ?thesis
    proof
      assume "c \<in> set (decimal (n div 10))"
      with False show ?thesis by (intro "1.IH") simp_all
    next
      assume c: "c = 48 + n mod 10"
      have "n mod 10 < 10" by simp
      with c show ?thesis by linarith
    qed
  qed
qed

lemma decimal_value: "foldl (\<lambda>v c. 10 * v + (c - 48)) 0 (decimal n) = n"
proof (induction n rule: decimal.induct)
  case (1 n)
  show ?case
  proof (cases "n < 10")
    case True
    then show ?thesis by (simp add: decimal_digit)
  next
    case False
    then have "decimal n = decimal (n div 10) @ [48 + n mod 10]" by (simp add: decimal_step)
    moreover have "foldl (\<lambda>v c. 10 * v + (c - 48)) 0 (decimal (n div 10)) = n div 10"
      using False by (intro "1.IH") simp
    ultimately show ?thesis by simp
  qed
qed

lemma decimal_500: "decimal 500 = lit ''500''"
  by (simp add: decimal_three_digits lit_def)

text \<open>
  C7. \<open>fetchData\<close> always settles without throwing. On a response whose status \<open>n\<close> is
  not from 200 to 299 the error state holds \<open>HTTP\<close>, a space and the decimal digits of
  \<open>n\<close> (\<open>HTTP 500\<close> for 500), the busy flag is off, and the rows, sort key and direction
  are what they were. When the request itself fails, the error state holds the message
  of the thrown value, or \<open>Failed to load\<close> when it has none.
\<close>

theorem fetchData_reports_http_status:
  "(\<not> ok n \<longrightarrow>
      fetchData st (Resolved n body)
        = Inr (st\<lparr>loading := False, err := Some (lit ''HTTP '' @ decimal n)\<rparr>) \<and>
      (\<exists>st'. fetchData st (Resolved n body) = Inr st' \<and>
         err st' = Some (lit ''HTTP '' @ decimal n) \<and> rows st' = rows st \<and>
         sortKey st' = sortKey st \<and> sortDir st' = sortDir st \<and> loading st' = False)) \<and>
   lit ''HTTP '' @ decimal 500 = lit ''HTTP 500'' \<and>
   fetchData st (Rejected (Some m)) = Inr (st\<lparr>loading := False, err := Some m\<rparr>) \<and>
   fetchData st (Rejected None) = Inr (st\<lparr>loading := False, err := Some (lit ''Failed to load'')\<rparr>) \<and>
   (\<exists>st'. fetchData st out = Inr st')"
proof (intro conjI impI)
  assume n: "\<not> ok n"
  then show eq: "fetchData st (Resolved n body)
        = Inr (st\<lparr>loading := False, err := Some (lit ''HTTP '' @ decimal n)\<rparr>)"
    by (simp add: fetchData_def fetch_try_def)
  show "\<exists>st'. fetchData st (Resolved n body) = Inr st' \<and>
         err st' = Some (lit ''HTTP '' @ decimal n) \<and> rows st' = rows st \<and>
         sortKey st' = sortKey st \<and> sortDir st' = sortDir st \<and> loading st' = False"
    unfolding eq by simp
next
  show "lit ''HTTP '' @ decimal 500 = lit ''HTTP 500''"
    by (simp add: decimal_500) (simp add: lit_def)
next
  show "fetchData st (Rejected (Some m)) = Inr (st\<lparr>loading := False, err := Some m\<rparr>)"
    by (simp add: fetchData_def fetch_try_def)
next
  show "fetchData st (Rejected None) = Inr (st\<lparr>loading := False, err := Some (lit ''Failed to load'')\<rparr>)"
    by (simp add: fetchData_def fetch_try_def)
next
  show "\<exists>st'. fetchData st out = Inr st'"
    by (simp add: fetchData_def Let_def)
qed

theorem fetchData_reports_http_status_witness:
  "\<not> ok 500 \<and>
   fetchData initial_page (Resolved 500 (Inr [game 3 (Number (11 / 20)) Null]))
     = Inr \<lparr>rows = [], loading = False, err = Some (lit ''HTTP 500''),
            sortKey = K_pick_prob, sortDir = Desc\<rparr>"
proof -
  have n: "\<not> ok 500" by (simp add: ok_def)
  with fetchData_reports_http_status
    [of 500 initial_page "Inr [game 3 (Number (11 / 20)) Null]" "[]" "Rejected None"]
  have "fetchData initial_page (Resolved 500 (Inr [game 3 (Number (11 / 20)) Null]))
        = Inr (initial_page\<lparr>loading := False, err := Some (lit ''HTTP 500'')\<rparr>)"
    by simp
  with n show ?thesis by (simp add: initial_page_def)
qed

section \<open>fmtNum\<close>

lemma decimal_0: "decimal 0 = lit ''0''"
  by (simp add: decimal_digit lit_def)

lemma decimal_nonempty: "decimal n \<noteq> []"
  by (subst decimal.simps) simp

lemma toFixed_zero:
  "toFixed ts 0 d =
     (if d < 0 \<or> 100 < d then Inl RangeError
      else if d = 0 then Inr (lit ''0'')
      else Inr (lit ''0.'' @ replicate (nat d) 48))"
proof (cases "d < 0 \<or> 100 < d")
  case True
  then show ?thesis by (simp add: toFixed_def)
next
  case False
  show ?thesis
  proof (cases "d = 0")
    case True
    then show ?thesis by (simp add: toFixed_def)
  next
    case nz: False
    with False obtain f where f: "nat d = Suc f" by (cases "nat d") auto
    have "replicate f (48::nat) @ [48] = replicate (Suc f) 48"
      by (simp add: replicate_append_same)
    with False nz f show ?thesis
      by (simp add: toFixed_def lit_def)
  qed
qed

lemma em_dash_not_zero: "Inr em_dash \<noteq> toFixed ts 0 d"
  by (simp add: toFixed_zero em_dash_def lit_def)

text \<open>
  Below \<open>10^21\<close> and for a digit count \<open>d\<close> from 1 to 100, \<open>toFixed\<close> prints the integer
  nearest to \<open>|x| * 10^d\<close> in decimal, padded with zeros to more than \<open>d\<close> digits, with
  the point before its last \<open>d\<close> digits.
\<close>

lemma toFixed_digits:
  assumes d: "0 < d" "d \<le> 100" and x: "\<bar>x\<bar> < 10 ^ 21"
  shows "\<exists>a b. toFixed ts x d = Inr ((if x < 0 then lit ''-'' else []) @ a @ lit ''.'' @ b) \<and>
           length b = nat d \<and> a \<noteq> [] \<and>
           a @ b = replicate (nat d + 1 - length (decimal (nat \<lfloor>\<bar>x\<bar> * 10 ^ nat d + 1 / 2\<rfloor>))) 48
                     @ decimal (nat \<lfloor>\<bar>x\<bar> * 10 ^ nat d + 1 / 2\<rfloor>)"
proof -
  define f where "f = nat d"
  define n where "n = nat \<lfloor>\<bar>x\<bar> * 10 ^ f + 1 / 2\<rfloor>"
  define m where "m = decimal n"
  define m' where "m' = replicate (f + 1 - length m) 48 @ m"
  have f: "f \<noteq> 0" using d by (simp add: f_def)
  have m0: "(if n = 0 then lit ''0'' else decimal n) = m"
    by (simp add: m_def decimal_0)
  have len: "f < length m'" using decimal_nonempty [of n] by (cases m) (auto simp: m'_def m_def)
  have pad: "(if length m \<le> f then replicate (f + 1 - length m) 48 @ m else m) = m'"
    by (simp add: m'_def)
  have k': "(if length m \<le> f then f + 1 else length m) = length m'"
    by (auto simp: m'_def)
  have ax: "(if x < 0 then - x else x) = \<bar>x\<bar>" by simp
  have "toFixed ts x d
      = Inr ((if x < 0 then lit ''-'' else []) @ take (length m' - f) m' @ lit ''.'' @ drop (length m' - f) m')"
    using d x f unfolding toFixed_def Let_def ax f_def [symmetric] n_def [symmetric] m0 pad k'
    by simp
  moreover have "length (drop (length m' - f) m') = f" using len by simp
  moreover have "take (length m' - f) m' \<noteq> []" using len by (cases m') auto
  moreover have "take (length m' - f) m' @ drop (length m' - f) m' = m'" by simp
  ultimately show ?thesis
    unfolding m'_def m_def n_def f_def by blast
qed

lemma toFixed_no_digits:
  assumes "\<bar>x\<bar> < 10 ^ 21"
  shows "toFixed ts x 0 = Inr ((if x < 0 then lit ''-'' else []) @ decimal (nat \<lfloor>\<bar>x\<bar> + 1 / 2\<rfloor>))"
proof -
  have ax: "(if x < 0 then - x else x) = \<bar>x\<bar>" by simp
  show ?thesis
    using assms unfolding toFixed_def Let_def ax by (simp add: decimal_0)
qed

text \<open>
  C9. \<open>fmtNum\<close> renders \<open>null\<close> and \<open>undefined\<close> as the em dash, whatever the digit count;
  the em dash is not \<open>0\<close>, nor what \<open>fmtNum\<close> gives for the number zero at any digit
  count; and a number \<open>x\<close> is rendered as \<open>x.toFixed(d)\<close>: for \<open>x\<close> below \<open>10^21\<close> in size
  and \<open>d\<close> from 1 to 100, its sign, then the digits of the integer nearest to
  \<open>|x| * 10^d\<close> with the point before the last \<open>d\<close> of them; for \<open>d = 0\<close>, its sign and the
  digits of the integer nearest to \<open>|x|\<close>.
\<close>

theorem fmtNum_placeholder_for_missing:
  "fmtNum ts Null d = Inr em_dash \<and>
   fmtNum ts Undefined d = Inr em_dash \<and>
   em_dash \<noteq> lit ''0'' \<and>
   fmtNum ts Null d \<noteq> fmtNum ts (Number 0) d' \<and>
   fmtNum ts Undefined d \<noteq> fmtNum ts (Number 0) d' \<and>
   fmtNum ts (Number x) d = toFixed ts x d \<and>
   (\<bar>x\<bar> < 10 ^ 21 \<longrightarrow>
      fmtNum ts (Number x) 0
        = Inr ((if x < 0 then lit ''-'' else []) @ decimal (nat \<lfloor>\<bar>x\<bar> + 1 / 2\<rfloor>))) \<and>
   (0 < d \<and> d \<le> 100 \<and> \<bar>x\<bar> < 10 ^ 21 \<longrightarrow>
      (\<exists>a b. fmtNum ts (Number x) d = Inr ((if x < 0 then lit ''-'' else []) @ a @ lit ''.'' @ b) \<and>
         length b = nat d \<and> a \<noteq> [] \<and>
         a @ b = replicate (nat d + 1 - length (decimal (nat \<lfloor>\<bar>x\<bar> * 10 ^ nat d + 1 / 2\<rfloor>))) 48
                   @ decimal (nat \<lfloor>\<bar>x\<bar> * 10 ^ nat d + 1 / 2\<rfloor>)))"
proof (intro conjI impI)
  show "fmtNum ts Null d = Inr em_dash" and "fmtNum ts Undefined d = Inr em_dash"
    and "fmtNum ts (Number x) d = toFixed ts x d"
    by (simp_all add: fmtNum_def)
  show "em_dash \<noteq> lit ''0''"
    by (simp add: em_dash_def lit_def)
  show "fmtNum ts Null d \<noteq> fmtNum ts (Number 0) d'"
    and "fmtNum ts Undefined d \<noteq> fmtNum ts (Number 0) d'"
    using em_dash_not_zero [of ts d'] by (simp_all add: fmtNum_def)
next
  assume "\<bar>x\<bar> < 10 ^ 21"
  then show "fmtNum ts (Number x) 0
        = Inr ((if x < 0 then lit ''-'' else []) @ decimal (nat \<lfloor>\<bar>x\<bar> + 1 / 2\<rfloor>))"
    by (simp add: fmtNum_def toFixed_no_digits)
next
  assume "0 < d \<and> d \<le> 100 \<and> \<bar>x\<bar> < 10 ^ 21"
  then show "\<exists>a b. fmtNum ts (Number x) d = Inr ((if x < 0 then lit ''-'' else []) @ a @ lit ''.'' @ b) \<and>
         length b = nat d \<and> a \<noteq> [] \<and>
         a @ b = replicate (nat d + 1 - length (decimal (nat \<lfloor>\<bar>x\<bar> * 10 ^ nat d + 1 / 2\<rfloor>))) 48
                   @ decimal (nat \<lfloor>\<bar>x\<bar> * 10 ^ nat d + 1 / 2\<rfloor>)"
    using toFixed_digits [of d x ts] by (simp add: fmtNum_def)
qed

lemma toFixed_example_1: "toFixed ts (11 / 4) 1 = Inr (lit ''2.8'')"
  by (simp add: toFixed_def decimal_step decimal_digit lit_def)

lemma toFixed_example_2: "toFixed ts (1 / 8) 2 = Inr (lit ''0.13'')"
  by (simp add: toFixed_def decimal_step decimal_digit lit_def)

lemma toFixed_example_3: "toFixed ts (- (5 / 2)) 0 = Inr (lit ''-3'')"
  by (simp add: toFixed_def decimal_step decimal_digit lit_def)

lemma toFixed_example_4: "toFixed ts 3 2 = Inr (lit ''3.00'')"
  by (simp add: toFixed_def decimal_step decimal_digit lit_def)

lemma toFixed_example_5: "toFixed ts 0 3 = Inr (lit ''0.000'')"
  by (simp add: toFixed_zero lit_def numeral_3_eq_3)

lemma toFixed_example_6: "toFixed ts 1 101 = Inl RangeError"
  by (simp add: toFixed_def)

theorem fmtNum_placeholder_for_missing_witness:
  "fmtNum (\<lambda>x. []) Null 3 = Inr [8212] \<and>
   fmtNum (\<lambda>x. []) Undefined 2 = Inr [8212] \<and>
   fmtNum (\<lambda>x. []) (Number 0) 3 = Inr (lit ''0.000'') \<and>
   fmtNum (\<lambda>x. []) (Number 3) 2 = Inr (lit ''3.00'') \<and>
   fmtNum (\<lambda>x. []) (Number (11 / 4)) 1 = Inr (lit ''2.8'') \<and>
   fmtNum (\<lambda>x. []) (Number (1 / 8)) 2 = Inr (lit ''0.13'') \<and>
   fmtNum (\<lambda>x. []) (Number (- (5 / 2))) 0 = Inr (lit ''-3'') \<and>
   (0::int) < 1 \<and> (1::int) \<le> 100 \<and> \<bar>11 / 4 :: real\<bar> < 10 ^ 21"
proof -
  note inst = fmtNum_placeholder_for_missing [of "\<lambda>x. []" 3 3 "11 / 4"]
  note inst2 = fmtNum_placeholder_for_missing [of "\<lambda>x. []" 2 3 3]
  note inst1 = fmtNum_placeholder_for_missing [of "\<lambda>x. []" 1 3 "11 / 4"]
  have "fmtNum (\<lambda>x. []) Null 3 = Inr [8212]" using inst by (simp add: em_dash_def)
  moreover have "fmtNum (\<lambda>x. []) Undefined 2 = Inr [8212]" using inst2 by (simp add: em_dash_def)
  moreover have "fmtNum (\<lambda>x. []) (Number (11 / 4)) 1 = Inr (lit ''2.8'')"
    using inst1 by (simp add: toFixed_example_1)
  moreover have "fmtNum (\<lambda>x. []) (Number 3) 2 = Inr (lit ''3.00'')"
    using inst2 by (simp add: toFixed_example_4)
  ultimately show ?thesis
    by (simp add: fmtNum_def toFixed_example_2 toFixed_example_3 toFixed_example_5)
qed

end
